theory Spec2Isabelle
  imports Main "HOL-Library.Word" "HOL-Library.Char_ord" "HOL-Library.List_Lexorder"
begin

unbundle bit_operations_syntax

section \<open>Machine integers\<close>

text \<open>
  The header \<^verbatim>\<open>wid.h\<close> computes ticks, sequence numbers and logical counters in
  \<^verbatim>\<open>int64_t\<close>. They are modelled as \<^typ>\<open>int\<close>, and every addition the source
  performs on them goes through \<open>add_i64\<close>. A signed overflow is undefined behaviour in
  C: it is a \<open>fault\<close> of the model (\<open>Inl\<close>), and so is a write past the end of a
  buffer and the use of an array whose content the C library leaves unspecified. A call
  "succeeds" when its result is \<open>Inr\<close>. The widths \<^verbatim>\<open>W\<close> and \<^verbatim>\<open>Z\<close> are C
  \<^verbatim>\<open>int\<close>s that the source only compares, clamps and adds to small constants; they
  are \<^typ>\<open>int\<close> as well.
\<close>

datatype fault = SignedOverflow | BufferOverflow | UnspecifiedContent

definition INT64_MAX :: int where
  "INT64_MAX = 9223372036854775807"

definition INT64_MIN :: int where
  "INT64_MIN = - 9223372036854775808"

definition INT_MAX :: int where
  "INT_MAX = 2147483647"

definition INT_MIN :: int where
  "INT_MIN = - 2147483648"

definition add_i64 :: "int \<Rightarrow> int \<Rightarrow> fault + int" where
  "add_i64 a b =
     (if a + b < INT64_MIN \<or> INT64_MAX < a + b then Inl SignedOverflow else Inr (a + b))"

text \<open>C's \<^verbatim>\<open>/\<close> and \<^verbatim>\<open>%\<close> truncate towards zero.\<close>

definition c_div :: "int \<Rightarrow> int \<Rightarrow> int" where
  "c_div a b = sgn a * sgn b * (\<bar>a\<bar> div \<bar>b\<bar>)"

definition c_mod :: "int \<Rightarrow> int \<Rightarrow> int" where
  "c_mod a b = a - b * c_div a b"

definition WID_MAX_LEN :: nat where "WID_MAX_LEN = 256"
definition WID_DEFAULT_W :: int where "WID_DEFAULT_W = 4"
definition WID_DEFAULT_Z :: int where "WID_DEFAULT_Z = 6"
definition WID_MAX_W :: int where "WID_MAX_W = 18"
definition WID_MAX_Z :: int where "WID_MAX_Z = 64"

datatype wid_time_unit_t = WID_TIME_SEC | WID_TIME_MS

section \<open>C strings and the C library\<close>

text \<open>
  A C string is the list of its characters before the terminating NUL. Reading
  \<^verbatim>\<open>s[i]\<close> at \<open>i = length s\<close> gives the terminator; the source never reads further
  (every indexed read is guarded by a length check or stops at the first character that
  fails a test, which the terminator does). \<^verbatim>\<open>s + k\<close> is \<open>drop k s\<close>, and
  \<^verbatim>\<open>(int)strlen(s)\<close> is \<open>int (length s)\<close>: strings are shorter than
  \<^verbatim>\<open>INT_MAX\<close>.
\<close>

definition cstr_at :: "string \<Rightarrow> nat \<Rightarrow> char" where
  "cstr_at s i = (if i < length s then s ! i else CHR 0x00)"

text \<open>\<^verbatim>\<open>strchr\<close>: the offset of the first occurrence of \<open>c\<close>, if any.\<close>

fun c_strchr :: "string \<Rightarrow> char \<Rightarrow> nat option" where
  "c_strchr [] c = None"
| "c_strchr (x # xs) c = (if x = c then Some 0 else map_option Suc (c_strchr xs c))"

text \<open>
  \<^verbatim>\<open>snprintf(out, size, ...)\<close> stores at most \<open>size - 1\<close> characters of the
  formatted text.
\<close>

definition c_snprintf :: "nat \<Rightarrow> string \<Rightarrow> string" where
  "c_snprintf sz s = take (sz - 1) s"

definition digit_char :: "nat \<Rightarrow> char" where
  "digit_char d = char_of (48 + d)"

fun dec_digits :: "nat \<Rightarrow> string" where
  "dec_digits n =
     (if n < 10 then [digit_char n] else dec_digits (n div 10) @ [digit_char (n mod 10)])"

declare dec_digits.simps [simp del]

text \<open>
  The conversions \<^verbatim>\<open>%0*lld\<close> and \<^verbatim>\<open>%03d\<close> of \<^verbatim>\<open>printf\<close>: the decimal digits
  of \<open>v\<close>, filled with zeros on the left up to the width (after the sign, if any).
\<close>

definition printf_0d :: "int \<Rightarrow> int \<Rightarrow> string" where
  "printf_0d width v =
     (if v < 0
      then CHR ''-'' # replicate (nat width - 1 - length (dec_digits (nat (- v)))) CHR ''0''
             @ dec_digits (nat (- v))
      else replicate (nat width - length (dec_digits (nat v))) CHR ''0'' @ dec_digits (nat v))"

subsection \<open>gmtime and strftime\<close>

text \<open>
  \<^verbatim>\<open>gmtime_r\<close> and \<^verbatim>\<open>strftime\<close> belong to the C library, not to the repository.
  They are modelled by their POSIX meaning: days since 1970-01-01 are split into a year
  and a day of the year by walking over the years, then into a month and a day of the
  month by walking over the month lengths. \<^verbatim>\<open>gmtime_r\<close> fails (returns NULL) when
  the year does not fit \<^verbatim>\<open>tm_year\<close>.
\<close>

record tm =
  tm_sec :: int
  tm_min :: int
  tm_hour :: int
  tm_mday :: int
  tm_mon :: int
  tm_year :: int

definition gm_leap :: "int \<Rightarrow> bool" where
  "gm_leap y = (y mod 4 = 0 \<and> (y mod 100 \<noteq> 0 \<or> y mod 400 = 0))"

definition gm_days_in_year :: "int \<Rightarrow> int" where
  "gm_days_in_year y = (if gm_leap y then 366 else 365)"

function gm_year_of :: "int \<Rightarrow> int \<Rightarrow> int \<times> int" where
  "gm_year_of y d =
     (if d < 0 then gm_year_of (y - 1) (d + gm_days_in_year (y - 1))
      else if gm_days_in_year y \<le> d then gm_year_of (y + 1) (d - gm_days_in_year y)
      else (y, d))"
  by pat_completeness auto
termination
  by (relation "measure (\<lambda>(y, d). if d < 0 then nat (- d) + 366 else nat d)")
     (auto simp: gm_days_in_year_def split: if_splits)

declare gm_year_of.simps [simp del]

definition gm_month_lengths :: "int \<Rightarrow> int list" where
  "gm_month_lengths y =
     [31, if gm_leap y then 29 else 28, 31, 30, 31, 30, 31, 31, 30, 31, 30, 31]"

fun gm_month_of :: "int list \<Rightarrow> int \<Rightarrow> int \<Rightarrow> int \<times> int" where
  "gm_month_of [] m d = (m, d)"
| "gm_month_of (l # ls) m d = (if d < l then (m, d) else gm_month_of ls (m + 1) (d - l))"

definition gmtime_r :: "int \<Rightarrow> tm option" where
  "gmtime_r t =
     (let days = t div 86400; rem = t mod 86400;
          (y, yday) = gm_year_of 1970 days;
          (m, mday) = gm_month_of (gm_month_lengths y) 0 yday
      in if y - 1900 < INT_MIN \<or> INT_MAX < y - 1900 then None
         else Some \<lparr> tm_sec = rem mod 60, tm_min = (rem div 60) mod 60, tm_hour = rem div 3600,
                     tm_mday = mday + 1, tm_mon = m, tm_year = y - 1900 \<rparr>)"

text \<open>
  \<^verbatim>\<open>strftime(base, size, "%Y%m%dT%H%M%S", tm)\<close>: \<^verbatim>\<open>%Y\<close> is the year as a decimal
  number, the other fields have two digits. When the text and its terminator do not fit
  the array, \<^verbatim>\<open>strftime\<close> returns 0 and leaves the array's content unspecified.
  (C libraries differ on \<^verbatim>\<open>%Y\<close> for years outside 1000 .. 9999, some fill with zeros
  or add a sign; inside that range they agree.)
\<close>

definition c_strftime :: "nat \<Rightarrow> tm \<Rightarrow> fault + string" where
  "c_strftime sz t =
     (let s = printf_0d 0 (tm_year t + 1900) @ printf_0d 2 (tm_mon t + 1)
              @ printf_0d 2 (tm_mday t) @ ''T'' @ printf_0d 2 (tm_hour t)
              @ printf_0d 2 (tm_min t) @ printf_0d 2 (tm_sec t)
      in if length s + 1 > sz then Inl UnspecifiedContent else Inr s)"

section \<open>Character classes and calendar checks\<close>

definition wid_is_digit :: "char \<Rightarrow> bool" where
  "wid_is_digit c = (c \<ge> CHR ''0'' \<and> c \<le> CHR ''9'')"

definition wid_is_alpha :: "char \<Rightarrow> bool" where
  "wid_is_alpha c = ((c \<ge> CHR ''a'' \<and> c \<le> CHR ''z'') \<or> (c \<ge> CHR ''A'' \<and> c \<le> CHR ''Z''))"

definition wid_is_alnum :: "char \<Rightarrow> bool" where
  "wid_is_alnum c = (wid_is_digit c \<or> wid_is_alpha c)"

definition wid_is_lower_hex :: "char \<Rightarrow> bool" where
  "wid_is_lower_hex c = ((c \<ge> CHR ''0'' \<and> c \<le> CHR ''9'') \<or> (c \<ge> CHR ''a'' \<and> c \<le> CHR ''f''))"

definition wid_is_leap_year :: "int \<Rightarrow> bool" where
  "wid_is_leap_year year =
     (if year mod 400 = 0 then True else if year mod 100 = 0 then False else year mod 4 = 0)"

definition days_in_month :: "int list" where
  "days_in_month = [31, 28, 31, 30, 31, 30, 31, 31, 30, 31, 30, 31]"

definition wid_valid_ymdhms :: "int \<Rightarrow> int \<Rightarrow> int \<Rightarrow> int \<Rightarrow> int \<Rightarrow> int \<Rightarrow> bool" where
  "wid_valid_ymdhms year month day hour minute second =
     (if month < 1 \<or> month > 12 then False
      else if hour < 0 \<or> hour > 23 then False
      else if minute < 0 \<or> minute > 59 then False
      else if second < 0 \<or> second > 59 then False
      else let dim0 = days_in_month ! nat (month - 1);
               dim = (if month = 2 \<and> wid_is_leap_year year then 29 else dim0)
           in day \<ge> 1 \<and> day \<le> dim)"

definition wid_is_node_char :: "char \<Rightarrow> bool" where
  "wid_is_node_char c = (wid_is_alnum c \<or> c = CHR ''_'')"

definition wid_valid_node :: "string \<Rightarrow> bool" where
  "wid_valid_node node = (if node = [] then False else list_all wid_is_node_char node)"

definition wid_valid_suffix :: "string \<Rightarrow> int \<Rightarrow> bool" where
  "wid_valid_suffix suffix Z =
     (if suffix = [] then True
      else if hd suffix \<noteq> CHR ''-'' then False
      else if Z \<le> 0 then False
      else let pad = tl suffix; n = int (length pad)
           in if n \<noteq> Z then False else list_all wid_is_lower_hex pad)"

definition wid_timestamp_len :: "wid_time_unit_t \<Rightarrow> int" where
  "wid_timestamp_len unit = (if unit = WID_TIME_MS then 18 else 15)"

text \<open>
  \<^verbatim>\<open>wid_parse_digits_i64(s, n)\<close>: the value of the first \<open>n\<close> characters, or \<open>-1\<close> at
  the first one that is not a digit (the terminator is not a digit). Every call of the
  source has \<open>n \<le> 18\<close>, so \<^verbatim>\<open>v * 10 + d\<close> stays below \<open>10 ^ 18\<close>.
\<close>

fun wid_parse_digits_loop :: "string \<Rightarrow> nat \<Rightarrow> int \<Rightarrow> int" where
  "wid_parse_digits_loop s 0 v = v"
| "wid_parse_digits_loop s (Suc n) v =
     (if \<not> wid_is_digit (cstr_at s 0) then - 1
      else wid_parse_digits_loop (tl s) n (v * 10 + (int (of_char (cstr_at s 0)) - 48)))"

definition wid_parse_digits_i64 :: "string \<Rightarrow> int \<Rightarrow> int" where
  "wid_parse_digits_i64 s n = wid_parse_digits_loop s (nat n) 0"

section \<open>Validation\<close>

text \<open>
  \<^verbatim>\<open>wid_parse_timestamp\<close> returns the seven calendar fields through its out
  pointers and \<^verbatim>\<open>true\<close>, or \<^verbatim>\<open>false\<close> with nothing written: an \<open>option\<close>.
\<close>

definition wid_parse_timestamp ::
  "string \<Rightarrow> wid_time_unit_t \<Rightarrow> (int \<times> int \<times> int \<times> int \<times> int \<times> int \<times> int) option" where
  "wid_parse_timestamp s unit =
     (let ts_len = wid_timestamp_len unit in
      if cstr_at s 8 \<noteq> CHR ''T'' then None
      else if \<not> list_all (\<lambda>i. wid_is_digit (cstr_at s i)) [0..<8] then None
      else if \<not> list_all (\<lambda>i. wid_is_digit (cstr_at s i)) [9..<15] then None
      else
        let y = wid_parse_digits_i64 (drop 0 s) 4;
            mo = wid_parse_digits_i64 (drop 4 s) 2;
            d = wid_parse_digits_i64 (drop 6 s) 2;
            h = wid_parse_digits_i64 (drop 9 s) 2;
            mi = wid_parse_digits_i64 (drop 11 s) 2;
            se = wid_parse_digits_i64 (drop 13 s) 2
        in if \<not> wid_valid_ymdhms y mo d h mi se then None
           else
             (case (if unit = WID_TIME_MS
                    then (if \<not> list_all (\<lambda>i. wid_is_digit (cstr_at s i)) [15..<18] then None
                          else let ms = wid_parse_digits_i64 (drop 15 s) 3
                               in if ms < 0 \<or> ms > 999 then None else Some ms)
                    else Some 0) of
                None \<Rightarrow> None
              | Some ms \<Rightarrow>
                  if cstr_at s (nat ts_len) \<noteq> CHR ''.'' then None
                  else Some (y, mo, d, h, mi, se, ms)))"

definition wid_validate_ex :: "string \<Rightarrow> int \<Rightarrow> int \<Rightarrow> wid_time_unit_t \<Rightarrow> bool" where
  "wid_validate_ex wid W Z unit =
     (if W \<le> 0 \<or> Z < 0 then False
      else if W > WID_MAX_W \<or> Z > WID_MAX_Z then False
      else
        let ts_len = wid_timestamp_len unit;
            n = int (length wid);
            base_len = ts_len + 1 + W + 1
        in if n < base_len then False
           else if wid_parse_timestamp wid unit = None then False
           else if cstr_at wid (nat (ts_len + 1 + W)) \<noteq> CHR ''Z'' then False
           else if \<not> list_all (\<lambda>i. wid_is_digit (cstr_at wid i))
                        [nat (ts_len + 1)..<nat (ts_len + 1 + W)] then False
           else wid_valid_suffix (drop (nat base_len) wid) Z)"

text \<open>
  The node loop of \<^verbatim>\<open>hlc_wid_validate_ex\<close>: it stops at the first \<^verbatim>\<open>-\<close>
  (\<open>DashAt\<close>, with its offset from \<^verbatim>\<open>node_start\<close>), returns \<^verbatim>\<open>false\<close> at a
  character outside the node alphabet (\<open>BadChar\<close>), or reaches the terminator
  (\<open>NoDash\<close>).
\<close>

datatype node_scan = BadChar | NoDash | DashAt nat

fun hlc_node_scan :: "string \<Rightarrow> nat \<Rightarrow> node_scan" where
  "hlc_node_scan [] k = NoDash"
| "hlc_node_scan (c # cs) k =
     (if c = CHR ''-'' then DashAt k
      else if \<not> wid_is_node_char c then BadChar
      else hlc_node_scan cs (Suc k))"

definition hlc_wid_validate_ex :: "string \<Rightarrow> int \<Rightarrow> int \<Rightarrow> wid_time_unit_t \<Rightarrow> bool" where
  "hlc_wid_validate_ex wid W Z unit =
     (if W \<le> 0 \<or> Z < 0 then False
      else if W > WID_MAX_W \<or> Z > WID_MAX_Z then False
      else
        let ts_len = wid_timestamp_len unit;
            n = int (length wid);
            prefix_len = ts_len + 1 + W + 1
        in if n < prefix_len + 2 then False
           else if wid_parse_timestamp wid unit = None then False
           else if cstr_at wid (nat (ts_len + 1 + W)) \<noteq> CHR ''Z'' then False
           else if cstr_at wid (nat (ts_len + 1 + W + 1)) \<noteq> CHR ''-'' then False
           else if \<not> list_all (\<lambda>i. wid_is_digit (cstr_at wid i))
                        [nat (ts_len + 1)..<nat (ts_len + 1 + W)] then False
           else
             let node_start = drop (nat (prefix_len + 1)) wid in
             (case hlc_node_scan node_start 0 of
                BadChar \<Rightarrow> False
              | NoDash \<Rightarrow> if int (length node_start) \<le> 0 then False else True
              | DashAt k \<Rightarrow>
                  if int k \<le> 0 then False else wid_valid_suffix (drop k node_start) Z))"

definition wid_validate :: "string \<Rightarrow> int \<Rightarrow> int \<Rightarrow> bool" where
  "wid_validate wid W Z = wid_validate_ex wid W Z WID_TIME_SEC"

definition hlc_wid_validate :: "string \<Rightarrow> int \<Rightarrow> int \<Rightarrow> bool" where
  "hlc_wid_validate wid W Z = hlc_wid_validate_ex wid W Z WID_TIME_SEC"

section \<open>Parsing\<close>

record parsed_wid_t =
  raw :: string
  year :: int
  month :: int
  day :: int
  hour :: int
  minute :: int
  second :: int
  millisecond :: int
  sequence :: int
  has_padding :: bool
  padding :: string

record parsed_hlc_wid_t =
  hlc_raw :: string
  hlc_year :: int
  hlc_month :: int
  hlc_day :: int
  hlc_hour :: int
  hlc_minute :: int
  hlc_second :: int
  hlc_millisecond :: int
  logical_counter :: int
  node :: string
  hlc_has_padding :: bool
  hlc_padding :: string

text \<open>
  The parsers return \<^verbatim>\<open>false\<close> (\<open>None\<close>) or fill \<^verbatim>\<open>*out\<close> and return
  \<^verbatim>\<open>true\<close>. \<^verbatim>\<open>sizeof(out->node)\<close> is 64.
\<close>

definition wid_parse_ex ::
  "string \<Rightarrow> int \<Rightarrow> int \<Rightarrow> wid_time_unit_t \<Rightarrow> parsed_wid_t option" where
  "wid_parse_ex wid W Z unit =
     (if \<not> wid_validate_ex wid W Z unit then None
      else
        let ts_len = wid_timestamp_len unit;
            base_len = ts_len + 1 + W + 1
        in case wid_parse_timestamp wid unit of
             None \<Rightarrow> None
           | Some (y, mo, d, h, mi, se, ms) \<Rightarrow>
               let sq = wid_parse_digits_i64 (drop (nat (ts_len + 1)) wid) W in
               if sq < 0 then None
               else
                 let suffix = drop (nat base_len) wid in
                 if suffix \<noteq> [] then
                   (let pad_len = length (drop 1 suffix) in
                    if int pad_len > WID_MAX_Z then None
                    else Some \<lparr> raw = wid, year = y, month = mo, day = d, hour = h,
                                minute = mi, second = se, millisecond = ms, sequence = sq,
                                has_padding = True, padding = drop 1 suffix \<rparr>)
                 else Some \<lparr> raw = wid, year = y, month = mo, day = d, hour = h,
                             minute = mi, second = se, millisecond = ms, sequence = sq,
                             has_padding = False, padding = [] \<rparr>)"

definition hlc_wid_parse_ex ::
  "string \<Rightarrow> int \<Rightarrow> int \<Rightarrow> wid_time_unit_t \<Rightarrow> parsed_hlc_wid_t option" where
  "hlc_wid_parse_ex wid W Z unit =
     (if \<not> hlc_wid_validate_ex wid W Z unit then None
      else
        let ts_len = wid_timestamp_len unit;
            prefix_len = ts_len + 1 + W + 1
        in case wid_parse_timestamp wid unit of
             None \<Rightarrow> None
           | Some (y, mo, d, h, mi, se, ms) \<Rightarrow>
               let l = wid_parse_digits_i64 (drop (nat (ts_len + 1)) wid) W in
               if l < 0 then None
               else
                 let node_start = drop (nat (prefix_len + 1)) wid;
                     suffix_dash = c_strchr node_start CHR ''-'';
                     node_len = (case suffix_dash of Some k \<Rightarrow> k | None \<Rightarrow> length node_start)
                 in if node_len = 0 \<or> node_len \<ge> 64 then None
                    else
                      (case suffix_dash of
                         Some k \<Rightarrow>
                           let pad_len = length (drop (k + 1) node_start) in
                           if int pad_len > WID_MAX_Z then None
                           else Some \<lparr> hlc_raw = wid, hlc_year = y, hlc_month = mo,
                                       hlc_day = d, hlc_hour = h, hlc_minute = mi,
                                       hlc_second = se, hlc_millisecond = ms,
                                       logical_counter = l, node = take node_len node_start,
                                       hlc_has_padding = True,
                                       hlc_padding = drop (k + 1) node_start \<rparr>
                       | None \<Rightarrow>
                           Some \<lparr> hlc_raw = wid, hlc_year = y, hlc_month = mo,
                                  hlc_day = d, hlc_hour = h, hlc_minute = mi,
                                  hlc_second = se, hlc_millisecond = ms,
                                  logical_counter = l, node = take node_len node_start,
                                  hlc_has_padding = False, hlc_padding = [] \<rparr>))"

definition wid_parse :: "string \<Rightarrow> int \<Rightarrow> int \<Rightarrow> parsed_wid_t option" where
  "wid_parse wid W Z = wid_parse_ex wid W Z WID_TIME_SEC"

definition hlc_wid_parse :: "string \<Rightarrow> int \<Rightarrow> int \<Rightarrow> parsed_hlc_wid_t option" where
  "hlc_wid_parse wid W Z = hlc_wid_parse_ex wid W Z WID_TIME_SEC"

section \<open>Random padding and tick formatting\<close>

text \<open>
  \<^verbatim>\<open>wid_random_hex(buf, len)\<close> fills the local array
  \<^verbatim>\<open>unsigned char raw[(WID_MAX_Z / 2) + 1]\<close>, 33 bytes, with \<open>len\<close> bytes read
  from the random device (or from \<^verbatim>\<open>rand()\<close>), then writes one hex digit per byte.
  The bytes are the parameter \<open>rnd\<close> (byte \<open>i\<close> of the read). A \<open>len\<close> above the size
  of \<^verbatim>\<open>raw\<close> writes past its end.
\<close>

definition hex_digits :: string where
  "hex_digits = ''0123456789abcdef''"

definition wid_random_hex :: "(nat \<Rightarrow> 8 word) \<Rightarrow> int \<Rightarrow> fault + string" where
  "wid_random_hex rnd len =
     (if len > WID_MAX_Z div 2 + 1 then Inl BufferOverflow
      else Inr (map (\<lambda>i. hex_digits ! unat (rnd i AND 0x0f)) [0..<nat len]))"

text \<open>
  \<^verbatim>\<open>wid_fmt_tick\<close> writes the timestamp into \<^verbatim>\<open>out[24]\<close>; the empty string when
  \<^verbatim>\<open>gmtime_r\<close> fails. \<^verbatim>\<open>base\<close> has 20 bytes.
\<close>

definition wid_fmt_tick :: "wid_time_unit_t \<Rightarrow> int \<Rightarrow> fault + string" where
  "wid_fmt_tick unit tick =
     (let sec = (if unit = WID_TIME_MS then c_div tick 1000 else tick);
          ms0 = (if unit = WID_TIME_MS then c_mod tick 1000 else 0);
          ms = (if unit = WID_TIME_MS \<and> ms0 < 0 then ms0 + 1000 else ms0)
      in case gmtime_r sec of
           None \<Rightarrow> Inr []
         | Some t \<Rightarrow>
             (case c_strftime 20 t of
                Inl e \<Rightarrow> Inl e
              | Inr base \<Rightarrow>
                  if unit = WID_TIME_MS then Inr (c_snprintf 24 (base @ printf_0d 3 ms))
                  else Inr (c_snprintf 24 base)))"

section \<open>Generator state\<close>

record wid_gen_t =
  gen_W :: int
  gen_Z :: int
  gen_time_unit :: wid_time_unit_t
  last_tick :: int
  last_seq :: int
  max_seq :: int

record hlc_wid_gen_t =
  hlc_W :: int
  hlc_Z :: int
  hlc_time_unit :: wid_time_unit_t
  hlc_node :: string
  pt :: int
  lc :: int
  max_lc :: int

text \<open>
  \<^verbatim>\<open>wid_pow10_i64\<close>: the loop multiplies by ten \<open>n\<close> times and saturates at
  \<^verbatim>\<open>INT64_MAX\<close> instead of overflowing. A negative \<open>n\<close> runs the loop zero times.
\<close>

fun wid_pow10_loop :: "nat \<Rightarrow> int \<Rightarrow> int" where
  "wid_pow10_loop 0 v = v"
| "wid_pow10_loop (Suc k) v =
     (if v > INT64_MAX div 10 then INT64_MAX else wid_pow10_loop k (v * 10))"

definition wid_pow10_i64 :: "int \<Rightarrow> int" where
  "wid_pow10_i64 n = wid_pow10_loop (nat n) 1"

section \<open>The WID generator\<close>

definition wid_gen_init_ex :: "int \<Rightarrow> int \<Rightarrow> wid_time_unit_t \<Rightarrow> wid_gen_t" where
  "wid_gen_init_ex W Z unit =
     (let W0 = (if W > 0 then W else WID_DEFAULT_W);
          Z0 = (if Z \<ge> 0 then Z else WID_DEFAULT_Z);
          W1 = (if W0 > WID_MAX_W then WID_MAX_W else W0);
          Z1 = (if Z0 > WID_MAX_Z then WID_MAX_Z else Z0)
      in \<lparr> gen_W = W1, gen_Z = Z1, gen_time_unit = unit,
           last_tick = 0, last_seq = - 1, max_seq = wid_pow10_i64 W1 - 1 \<rparr>)"

definition wid_gen_init :: "int \<Rightarrow> int \<Rightarrow> wid_gen_t" where
  "wid_gen_init W Z = wid_gen_init_ex W Z WID_TIME_SEC"

text \<open>
  \<^verbatim>\<open>wid_gen_next\<close> reads the wall clock once (\<open>now_tick\<close>, the value
  \<^verbatim>\<open>wid_now_tick\<close> returned), updates the state (\<open>wid_gen_step\<close>, the source's
  lines up to the two assignments to \<^verbatim>\<open>gen\<close>), then formats the identifier into
  \<^verbatim>\<open>out\<close> (\<open>wid_gen_emit\<close>).
\<close>

definition wid_gen_step :: "int \<Rightarrow> wid_gen_t \<Rightarrow> fault + wid_gen_t" where
  "wid_gen_step now_tick gen =
     (let tick = (if now_tick > last_tick gen then now_tick else last_tick gen) in
      case (if tick = last_tick gen then add_i64 (last_seq gen) 1 else Inr 0) of
        Inl e \<Rightarrow> Inl e
      | Inr sq \<Rightarrow>
          if sq > max_seq gen
          then (case add_i64 tick 1 of
                  Inl e \<Rightarrow> Inl e
                | Inr tick' \<Rightarrow> Inr (gen\<lparr> last_tick := tick', last_seq := 0 \<rparr>))
          else Inr (gen\<lparr> last_tick := tick, last_seq := sq \<rparr>))"

definition wid_gen_emit :: "(nat \<Rightarrow> 8 word) \<Rightarrow> nat \<Rightarrow> wid_gen_t \<Rightarrow> fault + string" where
  "wid_gen_emit rnd out_len gen =
     (case wid_fmt_tick (gen_time_unit gen) (last_tick gen) of
        Inl e \<Rightarrow> Inl e
      | Inr ts \<Rightarrow>
          let seq_str = c_snprintf 64 (printf_0d (gen_W gen) (last_seq gen)) in
          if gen_Z gen > 0
          then (case wid_random_hex rnd (gen_Z gen) of
                  Inl e \<Rightarrow> Inl e
                | Inr pad \<Rightarrow> Inr (c_snprintf out_len (ts @ ''.'' @ seq_str @ ''Z-'' @ pad)))
          else Inr (c_snprintf out_len (ts @ ''.'' @ seq_str @ ''Z'')))"

definition wid_gen_next ::
  "int \<Rightarrow> (nat \<Rightarrow> 8 word) \<Rightarrow> nat \<Rightarrow> wid_gen_t \<Rightarrow> fault + (wid_gen_t \<times> string)" where
  "wid_gen_next now_tick rnd out_len gen =
     (case wid_gen_step now_tick gen of
        Inl e \<Rightarrow> Inl e
      | Inr gen' \<Rightarrow>
          (case wid_gen_emit rnd out_len gen' of
             Inl e \<Rightarrow> Inl e
           | Inr out \<Rightarrow> Inr (gen', out)))"

text \<open>
  \<^verbatim>\<open>wid_gen_next_n\<close> calls \<^verbatim>\<open>wid_gen_next\<close> once per output slot, each of
  \<^verbatim>\<open>WID_MAX_LEN\<close> bytes; every call reads the clock and the random device anew, so
  the model takes one pair of readings per call.
\<close>

fun wid_gen_next_n ::
  "(int \<times> (nat \<Rightarrow> 8 word)) list \<Rightarrow> wid_gen_t \<Rightarrow> fault + (wid_gen_t \<times> string list)" where
  "wid_gen_next_n [] gen = Inr (gen, [])"
| "wid_gen_next_n ((now_tick, rnd) # rest) gen =
     (case wid_gen_next now_tick rnd WID_MAX_LEN gen of
        Inl e \<Rightarrow> Inl e
      | Inr (gen', out) \<Rightarrow>
          (case wid_gen_next_n rest gen' of
             Inl e \<Rightarrow> Inl e
           | Inr (gen'', outs) \<Rightarrow> Inr (gen'', out # outs)))"

section \<open>The HLC generator\<close>

text \<open>
  \<^verbatim>\<open>hlc_wid_gen_init_ex\<close> returns \<^verbatim>\<open>false\<close> (\<open>None\<close>) for a node name outside the
  node alphabet; \<^verbatim>\<open>strncpy\<close> keeps the first 63 characters of the name.
\<close>

definition hlc_wid_gen_init_ex ::
  "string \<Rightarrow> int \<Rightarrow> int \<Rightarrow> wid_time_unit_t \<Rightarrow> hlc_wid_gen_t option" where
  "hlc_wid_gen_init_ex nd W Z unit =
     (if \<not> wid_valid_node nd then None
      else
        let W0 = (if W > 0 then W else WID_DEFAULT_W);
            Z0 = (if Z \<ge> 0 then Z else 0);
            W1 = (if W0 > WID_MAX_W then WID_MAX_W else W0);
            Z1 = (if Z0 > WID_MAX_Z then WID_MAX_Z else Z0)
        in Some \<lparr> hlc_W = W1, hlc_Z = Z1, hlc_time_unit = unit, hlc_node = take 63 nd,
                   pt = 0, lc = 0, max_lc = wid_pow10_i64 W1 - 1 \<rparr>)"

definition hlc_wid_gen_init :: "string \<Rightarrow> int \<Rightarrow> int \<Rightarrow> hlc_wid_gen_t option" where
  "hlc_wid_gen_init nd W Z = hlc_wid_gen_init_ex nd W Z WID_TIME_SEC"

definition hlc_wid_rollover_if_needed :: "hlc_wid_gen_t \<Rightarrow> fault + hlc_wid_gen_t" where
  "hlc_wid_rollover_if_needed gen =
     (if lc gen > max_lc gen
      then (case add_i64 (pt gen) 1 of
              Inl e \<Rightarrow> Inl e
            | Inr p \<Rightarrow> Inr (gen\<lparr> pt := p, lc := 0 \<rparr>))
      else Inr gen)"

text \<open>
  \<^verbatim>\<open>hlc_wid_observe\<close> returns \<^verbatim>\<open>false\<close> and leaves the generator as it is for a
  negative remote value; otherwise it returns \<^verbatim>\<open>true\<close> with the merged state. \<open>now\<close>
  is the wall clock as the call read it.
\<close>

definition hlc_wid_observe ::
  "int \<Rightarrow> hlc_wid_gen_t \<Rightarrow> int \<Rightarrow> int \<Rightarrow> fault + (bool \<times> hlc_wid_gen_t)" where
  "hlc_wid_observe now gen remote_pt remote_lc =
     (if remote_pt < 0 \<or> remote_lc < 0 then Inr (False, gen)
      else
        let new_pt0 = now;
            new_pt1 = (if pt gen > new_pt0 then pt gen else new_pt0);
            new_pt = (if remote_pt > new_pt1 then remote_pt else new_pt1)
        in case (if new_pt = pt gen \<and> new_pt = remote_pt
                 then add_i64 (if lc gen > remote_lc then lc gen else remote_lc) 1
                 else if new_pt = pt gen then add_i64 (lc gen) 1
                 else if new_pt = remote_pt then add_i64 remote_lc 1
                 else Inr 0) of
             Inl e \<Rightarrow> Inl e
           | Inr l \<Rightarrow>
               (case hlc_wid_rollover_if_needed (gen\<lparr> lc := l, pt := new_pt \<rparr>) of
                  Inl e \<Rightarrow> Inl e
                | Inr gen' \<Rightarrow> Inr (True, gen')))"

definition hlc_wid_gen_step :: "int \<Rightarrow> hlc_wid_gen_t \<Rightarrow> fault + hlc_wid_gen_t" where
  "hlc_wid_gen_step now gen =
     (case (if now > pt gen then Inr (gen\<lparr> pt := now, lc := 0 \<rparr>)
            else (case add_i64 (lc gen) 1 of
                    Inl e \<Rightarrow> Inl e
                  | Inr l \<Rightarrow> Inr (gen\<lparr> lc := l \<rparr>))) of
        Inl e \<Rightarrow> Inl e
      | Inr gen1 \<Rightarrow> hlc_wid_rollover_if_needed gen1)"

definition hlc_wid_gen_emit :: "(nat \<Rightarrow> 8 word) \<Rightarrow> nat \<Rightarrow> hlc_wid_gen_t \<Rightarrow> fault + string" where
  "hlc_wid_gen_emit rnd out_len gen =
     (case wid_fmt_tick (hlc_time_unit gen) (pt gen) of
        Inl e \<Rightarrow> Inl e
      | Inr ts \<Rightarrow>
          let lc_str = c_snprintf 64 (printf_0d (hlc_W gen) (lc gen)) in
          if hlc_Z gen > 0
          then (case wid_random_hex rnd (hlc_Z gen) of
                  Inl e \<Rightarrow> Inl e
                | Inr pad \<Rightarrow>
                    Inr (c_snprintf out_len
                           (ts @ ''.'' @ lc_str @ ''Z-'' @ hlc_node gen @ ''-'' @ pad)))
          else Inr (c_snprintf out_len (ts @ ''.'' @ lc_str @ ''Z-'' @ hlc_node gen)))"

definition hlc_wid_gen_next ::
  "int \<Rightarrow> (nat \<Rightarrow> 8 word) \<Rightarrow> nat \<Rightarrow> hlc_wid_gen_t \<Rightarrow> fault + (hlc_wid_gen_t \<times> string)" where
  "hlc_wid_gen_next now rnd out_len gen =
     (case hlc_wid_gen_step now gen of
        Inl e \<Rightarrow> Inl e
      | Inr gen' \<Rightarrow>
          (case hlc_wid_gen_emit rnd out_len gen' of
             Inl e \<Rightarrow> Inl e
           | Inr out \<Rightarrow> Inr (gen', out)))"

section \<open>Reachable generator states and orders\<close>

text \<open>
  A generator is made by its initialiser and changed only by \<^verbatim>\<open>next\<close> and, for HLC,
  \<^verbatim>\<open>observe\<close>.
\<close>

inductive wid_reachable :: "wid_gen_t \<Rightarrow> bool" where
  wid_init: "wid_reachable (wid_gen_init_ex W Z unit)"
| wid_next: "wid_reachable gen \<Longrightarrow> wid_gen_next now_tick rnd out_len gen = Inr (gen', out)
     \<Longrightarrow> wid_reachable gen'"

inductive hlc_reachable :: "hlc_wid_gen_t \<Rightarrow> bool" where
  hlc_init: "hlc_wid_gen_init_ex nd W Z unit = Some gen \<Longrightarrow> hlc_reachable gen"
| hlc_next: "hlc_reachable gen \<Longrightarrow> hlc_wid_gen_next now rnd out_len gen = Inr (gen', out)
     \<Longrightarrow> hlc_reachable gen'"
| hlc_observe: "hlc_reachable gen \<Longrightarrow> hlc_wid_observe now gen remote_pt remote_lc = Inr (ok, gen')
     \<Longrightarrow> hlc_reachable gen'"

definition lex_less :: "int \<times> int \<Rightarrow> int \<times> int \<Rightarrow> bool" where
  "lex_less a b = (fst a < fst b \<or> (fst a = fst b \<and> snd a < snd b))"

section \<open>Vocabulary of the specification\<close>

text \<open>
  The specification's NODE: one or more characters from \<^verbatim>\<open>[A-Za-z0-9_]\<close>. The
  definition follows the specification's words (the characters are listed); it is
  compared with the source's \<^verbatim>\<open>wid_valid_node\<close> below.
\<close>

definition node_grammar :: "string \<Rightarrow> bool" where
  "node_grammar s = (1 \<le> length s \<and> list_all (\<lambda>c. c \<in> set
      ''ABCDEFGHIJKLMNOPQRSTUVWXYZabcdefghijklmnopqrstuvwxyz0123456789_'') s)"

text \<open>
  Re-rendering a parsed identifier, in the specification's words: the calendar fields at
  their fixed widths (\<^verbatim>\<open>YYYYMMDDTHHMMSS\<close>, then \<^verbatim>\<open>mmm\<close> for the millisecond
  unit), a dot, the counter filled with zeros to \<open>W\<close> digits, \<^verbatim>\<open>Z\<close>, for HLC a
  dash and the node, and a dash and the padding when the parsed view has padding. The
  zero filling is the one \<^verbatim>\<open>printf\<close> does for the generators.
\<close>

definition render_ts ::
  "wid_time_unit_t \<Rightarrow> int \<Rightarrow> int \<Rightarrow> int \<Rightarrow> int \<Rightarrow> int \<Rightarrow> int \<Rightarrow> int \<Rightarrow> string" where
  "render_ts unit y mo d h mi se ms =
     printf_0d 4 y @ printf_0d 2 mo @ printf_0d 2 d @ ''T'' @ printf_0d 2 h @ printf_0d 2 mi
       @ printf_0d 2 se @ (if unit = WID_TIME_MS then printf_0d 3 ms else [])"

definition render_wid :: "int \<Rightarrow> wid_time_unit_t \<Rightarrow> parsed_wid_t \<Rightarrow> string" where
  "render_wid W unit p =
     render_ts unit (year p) (month p) (day p) (hour p) (minute p) (second p) (millisecond p)
       @ ''.'' @ printf_0d W (sequence p) @ ''Z''
       @ (if has_padding p then ''-'' @ padding p else [])"

definition render_hlc_wid :: "int \<Rightarrow> wid_time_unit_t \<Rightarrow> parsed_hlc_wid_t \<Rightarrow> string" where
  "render_hlc_wid W unit p =
     render_ts unit (hlc_year p) (hlc_month p) (hlc_day p) (hlc_hour p) (hlc_minute p)
         (hlc_second p) (hlc_millisecond p)
       @ ''.'' @ printf_0d W (logical_counter p) @ ''Z'' @ ''-'' @ node p
       @ (if hlc_has_padding p then ''-'' @ hlc_padding p else [])"

text \<open>
  The node segment of a candidate HLC-WID: the characters between the dash after the
  counter's \<^verbatim>\<open>Z\<close> and the next dash or the end of the string.
\<close>

definition hlc_node_segment :: "string \<Rightarrow> int \<Rightarrow> wid_time_unit_t \<Rightarrow> string" where
  "hlc_node_segment s W unit =
     takeWhile (\<lambda>c. c \<noteq> CHR ''-'') (drop (nat (wid_timestamp_len unit + 1 + W + 1 + 1)) s)"

text \<open>
  "The tick formats to a four-digit year": \<^verbatim>\<open>gmtime_r\<close> succeeds on the tick's
  seconds and the year is in 1000 .. 9999.
\<close>

definition formats_four_digit_year :: "wid_time_unit_t \<Rightarrow> int \<Rightarrow> bool" where
  "formats_four_digit_year unit tick =
     (case gmtime_r (if unit = WID_TIME_MS then c_div tick 1000 else tick) of
        None \<Rightarrow> False
      | Some r \<Rightarrow> 1000 \<le> tm_year r + 1900 \<and> tm_year r + 1900 \<le> 9999)"

text \<open>
  The timestamp of an identifier: its characters before the dot that starts the counter.
  The specification orders identifiers by the lexicographic order of this prefix, so
  timestamps are compared as strings, character by character (\<open><\<close> on strings).
\<close>

definition wid_timestamp_of :: "string \<Rightarrow> string" where
  "wid_timestamp_of s = takeWhile (\<lambda>c. c \<noteq> CHR ''.'') s"

text \<open>
  The number of leap years before the year \<open>y\<close> in the Gregorian calendar. It gives the
  days that the year loop of \<^verbatim>\<open>gmtime_r\<close> walks over in closed form.
\<close>

definition leap_years_before :: "int \<Rightarrow> int" where
  "leap_years_before y = (y - 1) div 4 - (y - 1) div 100 + (y - 1) div 400"

text \<open>
  The state invariants of the two generators: the widths are in range (and the node name
  is in the node alphabet), the largest counter is \<open>10 ^ W - 1\<close>, the counter is at
  most that (the WID generator starts at \<open>-1\<close>, before its first identifier), and the
  tick is not negative.
\<close>

definition wid_gen_inv :: "wid_gen_t \<Rightarrow> bool" where
  "wid_gen_inv gen =
     (1 \<le> gen_W gen \<and> gen_W gen \<le> 18 \<and> 0 \<le> gen_Z gen \<and> gen_Z gen \<le> 64
      \<and> max_seq gen = 10 ^ nat (gen_W gen) - 1
      \<and> - 1 \<le> last_seq gen \<and> last_seq gen \<le> max_seq gen \<and> 0 \<le> last_tick gen)"

definition hlc_gen_inv :: "hlc_wid_gen_t \<Rightarrow> bool" where
  "hlc_gen_inv gen =
     (1 \<le> hlc_W gen \<and> hlc_W gen \<le> 18 \<and> 0 \<le> hlc_Z gen \<and> hlc_Z gen \<le> 64
      \<and> wid_valid_node (hlc_node gen)
      \<and> max_lc gen = 10 ^ nat (hlc_W gen) - 1
      \<and> 0 \<le> lc gen \<and> lc gen \<le> max_lc gen \<and> 0 \<le> pt gen)"

section \<open>Arithmetic of the generators\<close>

lemma add_i64_Inr: "add_i64 a b = Inr c \<Longrightarrow> c = a + b"
  by (auto simp: add_i64_def split: if_splits)

lemma wid_pow10_loop_exact:
  "0 < v \<Longrightarrow> v * 10 ^ k \<le> 10 ^ 18 \<Longrightarrow> wid_pow10_loop k v = v * 10 ^ k"
proof (induction k arbitrary: v)
  case 0
  then show ?case by simp
next
  case (Suc k)
  have "1 \<le> (10::int) ^ k" by simp
  then have "v * 10 \<le> v * 10 * 10 ^ k" using Suc.prems(1)
    by (metis mult.right_neutral mult_left_mono less_imp_le mult_pos_pos zero_less_numeral)
  then have "v * 10 \<le> 10 ^ 18" using Suc.prems(2) by (simp add: mult.assoc mult.commute)
  then have small: "\<not> v > INT64_MAX div 10" by (simp add: INT64_MAX_def)
  have "wid_pow10_loop k (v * 10) = v * 10 * 10 ^ k"
    using Suc.prems by (intro Suc.IH) (simp_all add: mult.assoc mult.commute)
  then show ?case using small by (simp add: mult.assoc mult.commute)
qed

lemma wid_pow10_i64_exact: "0 \<le> n \<Longrightarrow> n \<le> 18 \<Longrightarrow> wid_pow10_i64 n = 10 ^ nat n"
proof -
  assume n: "0 \<le> n" "n \<le> 18"
  then have "nat n \<le> 18" by simp
  then have "(10::int) ^ nat n \<le> 10 ^ 18" by (intro power_increasing) simp_all
  then show ?thesis unfolding wid_pow10_i64_def by (subst wid_pow10_loop_exact) simp_all
qed

lemma pow10_ge_10: "1 \<le> W \<Longrightarrow> (10::int) \<le> 10 ^ nat W"
proof -
  assume "1 \<le> W"
  then have "(10::int) ^ 1 \<le> 10 ^ nat W" by (intro power_increasing) simp_all
  then show ?thesis by simp
qed

section \<open>Initialisation\<close>

lemma wid_gen_init_ex_fields:
  "wid_gen_init_ex W Z unit =
     \<lparr> gen_W = (if W \<le> 0 then 4 else if 18 < W then 18 else W),
       gen_Z = (if Z < 0 then 6 else if 64 < Z then 64 else Z),
       gen_time_unit = unit, last_tick = 0, last_seq = - 1,
       max_seq = 10 ^ nat (if W \<le> 0 then 4 else if 18 < W then 18 else W) - 1 \<rparr>"
proof -
  define W1 where "W1 = (if W \<le> 0 then 4 else if 18 < W then 18 else W)"
  have "0 \<le> W1" "W1 \<le> 18" by (simp_all add: W1_def)
  then have "wid_pow10_i64 W1 = 10 ^ nat W1" by (rule wid_pow10_i64_exact)
  then show ?thesis unfolding W1_def
    by (auto simp: wid_gen_init_ex_def Let_def WID_DEFAULT_W_def WID_DEFAULT_Z_def
        WID_MAX_W_def WID_MAX_Z_def)
qed

lemma hlc_wid_gen_init_ex_fields:
  assumes "wid_valid_node nd"
  shows "hlc_wid_gen_init_ex nd W Z unit =
     Some \<lparr> hlc_W = (if W \<le> 0 then 4 else if 18 < W then 18 else W),
            hlc_Z = (if Z < 0 then 0 else if 64 < Z then 64 else Z),
            hlc_time_unit = unit, hlc_node = take 63 nd, pt = 0, lc = 0,
            max_lc = 10 ^ nat (if W \<le> 0 then 4 else if 18 < W then 18 else W) - 1 \<rparr>"
proof -
  define W1 where "W1 = (if W \<le> 0 then 4 else if 18 < W then 18 else W)"
  have "0 \<le> W1" "W1 \<le> 18" by (simp_all add: W1_def)
  then have "wid_pow10_i64 W1 = 10 ^ nat W1" by (rule wid_pow10_i64_exact)
  then show ?thesis using assms unfolding W1_def
    by (auto simp: hlc_wid_gen_init_ex_def Let_def WID_DEFAULT_W_def
        WID_MAX_W_def WID_MAX_Z_def)
qed

lemma wid_is_node_char_iff:
  "wid_is_node_char c \<longleftrightarrow>
     c \<in> set ''ABCDEFGHIJKLMNOPQRSTUVWXYZabcdefghijklmnopqrstuvwxyz0123456789_''"
  by (cases c)
     (simp add: wid_is_node_char_def wid_is_alnum_def wid_is_digit_def wid_is_alpha_def
       less_eq_char_def)

lemma wid_valid_node_iff: "wid_valid_node nd \<longleftrightarrow> node_grammar nd"
proof -
  define P where "P = (\<lambda>c. c \<in> set
      ''ABCDEFGHIJKLMNOPQRSTUVWXYZabcdefghijklmnopqrstuvwxyz0123456789_'')"
  have "wid_is_node_char = P" unfolding P_def by (rule ext) (rule wid_is_node_char_iff)
  then have "wid_valid_node nd = (if nd = [] then False else list_all P nd)"
    by (simp only: wid_valid_node_def)
  moreover have "node_grammar nd = (1 \<le> length nd \<and> list_all P nd)"
    by (simp only: node_grammar_def P_def)
  ultimately show ?thesis by (cases nd) simp_all
qed

section \<open>The WID generator's invariant\<close>

lemma wid_gen_inv_init: "wid_gen_inv (wid_gen_init_ex W Z unit)"
proof -
  define W1 where "W1 = (if W \<le> 0 then 4 else if 18 < W then 18 else W)"
  have "1 \<le> W1" "W1 \<le> 18" by (simp_all add: W1_def)
  then show ?thesis using pow10_ge_10 [of W1] unfolding W1_def
    by (simp add: wid_gen_init_ex_fields wid_gen_inv_def)
qed

text \<open>The three ways a step leaves: a newer clock, the same tick, a borrowed tick.\<close>

lemma wid_gen_step_cases:
  assumes "wid_gen_step now_tick gen = Inr gen'" and "wid_gen_inv gen"
  shows "gen' = gen\<lparr> last_tick := now_tick, last_seq := 0 \<rparr> \<and> last_tick gen < now_tick
       \<or> gen' = gen\<lparr> last_tick := last_tick gen, last_seq := last_seq gen + 1 \<rparr>
           \<and> now_tick \<le> last_tick gen \<and> last_seq gen + 1 \<le> max_seq gen
       \<or> gen' = gen\<lparr> last_tick := last_tick gen + 1, last_seq := 0 \<rparr>
           \<and> now_tick \<le> last_tick gen \<and> last_seq gen = max_seq gen"
proof -
  have m: "9 \<le> max_seq gen"
    using assms(2) pow10_ge_10 [of "gen_W gen"] by (simp add: wid_gen_inv_def)
  show ?thesis
  proof (cases "last_tick gen < now_tick")
    case True
    then show ?thesis using assms(1) m by (simp add: wid_gen_step_def)
  next
    case False
    then show ?thesis using assms m
      by (auto simp: wid_gen_step_def wid_gen_inv_def Let_def dest!: add_i64_Inr
          split: sum.splits if_splits)
  qed
qed

lemma wid_gen_step_inv:
  assumes "wid_gen_step now_tick gen = Inr gen'" and "wid_gen_inv gen"
  shows "wid_gen_inv gen'"
  using wid_gen_step_cases [OF assms] assms(2) pow10_ge_10 [of "gen_W gen"]
  by (auto simp: wid_gen_inv_def)

lemma wid_gen_next_step:
  "wid_gen_next now_tick rnd out_len gen = Inr (gen', out)
     \<Longrightarrow> wid_gen_step now_tick gen = Inr gen'"
  by (auto simp: wid_gen_next_def split: sum.splits)

lemma wid_reachable_inv: "wid_reachable gen \<Longrightarrow> wid_gen_inv gen"
  by (induction rule: wid_reachable.induct)
     (auto intro: wid_gen_inv_init wid_gen_step_inv dest: wid_gen_next_step)

lemma wid_gen_next_n_reachable:
  "wid_gen_next_n calls gen = Inr (gen', outs) \<Longrightarrow> wid_reachable gen \<Longrightarrow> wid_reachable gen'"
proof (induction calls arbitrary: gen outs)
  case Nil
  then show ?case by simp
next
  case (Cons c calls)
  obtain now_tick rnd where c: "c = (now_tick, rnd)" by (cases c)
  from Cons.prems(1) c obtain g1 out1 outs1 where
    first: "wid_gen_next now_tick rnd WID_MAX_LEN gen = Inr (g1, out1)"
    and rest: "wid_gen_next_n calls g1 = Inr (gen', outs1)"
    by (auto split: sum.splits)
  have "wid_reachable g1" using Cons.prems(2) first by (rule wid_next)
  with Cons.IH [OF rest] show ?case .
qed

text \<open>
  The state part of \<^verbatim>\<open>wid_gen_next\<close> is defined (no signed overflow) from every
  state whose tick is below \<^verbatim>\<open>INT64_MAX\<close>.
\<close>

lemma wid_gen_step_succeeds:
  assumes "wid_gen_inv gen" and "last_tick gen < INT64_MAX" and "now_tick \<le> INT64_MAX"
  shows "\<exists>gen'. wid_gen_step now_tick gen = Inr gen'"
proof -
  have "nat (gen_W gen) \<le> 18" using assms(1) by (auto simp: wid_gen_inv_def)
  then have "(10::int) ^ nat (gen_W gen) \<le> 10 ^ 18"
    by (intro power_increasing) simp_all
  then have "last_seq gen + 1 \<le> 10 ^ 18" "- 1 \<le> last_seq gen" "0 \<le> last_tick gen"
    "0 \<le> max_seq gen"
    using assms(1) pow10_ge_10 [of "gen_W gen"] by (simp_all add: wid_gen_inv_def)
  then show ?thesis using assms(2,3)
    by (auto simp: wid_gen_step_def add_i64_def INT64_MAX_def INT64_MIN_def Let_def)
qed

text \<open>
  While the clock does not pass the generator's tick, every call adds exactly one to
  \<open>(max_seq + 1) * last_tick + last_seq\<close>.
\<close>

lemma wid_gen_step_potential:
  assumes "wid_gen_step T gen = Inr gen'" and "wid_gen_inv gen" and "T \<le> last_tick gen"
  shows "(max_seq gen' + 1) * last_tick gen' + last_seq gen'
           = (max_seq gen + 1) * last_tick gen + last_seq gen + 1
         \<and> T \<le> last_tick gen' \<and> max_seq gen' = max_seq gen"
  using wid_gen_step_cases [OF assms(1,2)] assms(3) by (auto simp: algebra_simps)

lemma wid_gen_next_n_potential:
  assumes "wid_gen_next_n (map (Pair T) rnds) gen = Inr (gen', outs)"
    and "wid_gen_inv gen" and "T \<le> last_tick gen"
  shows "(max_seq gen + 1) * last_tick gen' + last_seq gen'
           = (max_seq gen + 1) * last_tick gen + last_seq gen + int (length rnds)
         \<and> wid_gen_inv gen' \<and> max_seq gen' = max_seq gen"
  using assms
proof (induction rnds arbitrary: gen outs)
  case Nil
  then show ?case by simp
next
  case (Cons r rnds)
  from Cons.prems(1) obtain g1 out1 outs1 where
    first: "wid_gen_next T r WID_MAX_LEN gen = Inr (g1, out1)"
    and rest: "wid_gen_next_n (map (Pair T) rnds) g1 = Inr (gen', outs1)"
    by (auto split: sum.splits)
  have step: "wid_gen_step T gen = Inr g1" using first by (rule wid_gen_next_step)
  have inv1: "wid_gen_inv g1" using step Cons.prems(2) by (rule wid_gen_step_inv)
  from wid_gen_step_potential [OF step Cons.prems(2,3)]
  have p: "(max_seq gen + 1) * last_tick g1 + last_seq g1
             = (max_seq gen + 1) * last_tick gen + last_seq gen + 1"
    and T1: "T \<le> last_tick g1" and m1: "max_seq g1 = max_seq gen"
    by auto
  from Cons.IH [OF rest inv1 T1] p m1
  show ?case by simp
qed

section \<open>The HLC generator's invariant\<close>

lemma wid_valid_node_take: "wid_valid_node nd \<Longrightarrow> wid_valid_node (take 63 nd)"
  by (cases nd) (auto simp: wid_valid_node_def list_all_iff dest: in_set_takeD)

lemma hlc_gen_inv_init: "hlc_wid_gen_init_ex nd W Z unit = Some gen \<Longrightarrow> hlc_gen_inv gen"
proof -
  assume a: "hlc_wid_gen_init_ex nd W Z unit = Some gen"
  define W1 where "W1 = (if W \<le> 0 then 4 else if 18 < W then 18 else W)"
  have W1: "1 \<le> W1" "W1 \<le> 18" by (simp_all add: W1_def)
  from a have v: "wid_valid_node nd" by (auto simp: hlc_wid_gen_init_ex_def split: if_splits)
  from hlc_wid_gen_init_ex_fields [OF v, of W Z unit] a
  show ?thesis using W1 pow10_ge_10 [of W1] wid_valid_node_take [OF v] unfolding W1_def
    by (auto simp: hlc_gen_inv_def)
qed

lemma hlc_rollover_cases:
  assumes "hlc_wid_rollover_if_needed gen = Inr gen'"
  shows "gen' = gen \<and> lc gen \<le> max_lc gen
       \<or> gen' = gen\<lparr> pt := pt gen + 1, lc := 0 \<rparr> \<and> max_lc gen < lc gen"
  using assms
  by (auto simp: hlc_wid_rollover_if_needed_def dest!: add_i64_Inr split: if_splits sum.splits)

lemma hlc_wid_gen_step_props:
  assumes "hlc_wid_gen_step now gen = Inr gen'" and "hlc_gen_inv gen"
  shows "hlc_gen_inv gen' \<and> pt gen \<le> pt gen' \<and> lex_less (pt gen, lc gen) (pt gen', lc gen')"
proof -
  have m: "9 \<le> max_lc gen"
    using assms(2) pow10_ge_10 [of "hlc_W gen"] by (simp add: hlc_gen_inv_def)
  show ?thesis
  proof (cases "pt gen < now")
    case True
    then have "gen' = gen\<lparr> pt := now, lc := 0 \<rparr>" using assms(1) m
      by (auto simp: hlc_wid_gen_step_def dest!: hlc_rollover_cases)
    then show ?thesis using True assms(2) m by (auto simp: hlc_gen_inv_def lex_less_def)
  next
    case False
    then obtain g1 where g1: "g1 = gen\<lparr> lc := lc gen + 1 \<rparr>"
      "hlc_wid_rollover_if_needed g1 = Inr gen'"
      using assms(1) by (auto simp: hlc_wid_gen_step_def dest!: add_i64_Inr split: sum.splits)
    from hlc_rollover_cases [OF g1(2)] g1(1) assms(2) m show ?thesis
      by (auto simp: hlc_gen_inv_def lex_less_def)
  qed
qed

lemma hlc_wid_observe_props:
  assumes "hlc_wid_observe now gen remote_pt remote_lc = Inr (True, gen')" and "hlc_gen_inv gen"
  shows "hlc_gen_inv gen' \<and> pt gen \<le> pt gen' \<and> lex_less (pt gen, lc gen) (pt gen', lc gen')"
proof -
  have m: "9 \<le> max_lc gen"
    using assms(2) pow10_ge_10 [of "hlc_W gen"] by (simp add: hlc_gen_inv_def)
  have nonneg: "0 \<le> remote_pt" "0 \<le> remote_lc"
    using assms(1) by (auto simp: hlc_wid_observe_def split: if_splits)
  define new_pt where "new_pt = max (max now (pt gen)) remote_pt"
  obtain l where l: "hlc_wid_rollover_if_needed (gen\<lparr> lc := l, pt := new_pt \<rparr>) = Inr gen'"
    and lcase: "new_pt = pt gen \<and> new_pt = remote_pt \<and> l = max (lc gen) remote_lc + 1
       \<or> new_pt = pt gen \<and> new_pt \<noteq> remote_pt \<and> l = lc gen + 1
       \<or> new_pt \<noteq> pt gen \<and> new_pt = remote_pt \<and> l = remote_lc + 1
       \<or> new_pt \<noteq> pt gen \<and> new_pt \<noteq> remote_pt \<and> l = 0"
    using assms(1) nonneg unfolding new_pt_def
    by (auto simp: hlc_wid_observe_def Let_def max_def dest!: add_i64_Inr
        split: sum.splits if_splits)
  have ge: "pt gen \<le> new_pt" by (simp add: new_pt_def)
  from hlc_rollover_cases [OF l] lcase ge assms(2) m nonneg show ?thesis
    by (auto simp: hlc_gen_inv_def lex_less_def)
qed

lemma hlc_wid_observe_False:
  "hlc_wid_observe now gen remote_pt remote_lc = Inr (False, gen') \<Longrightarrow> gen' = gen"
  by (auto simp: hlc_wid_observe_def Let_def split: sum.splits if_splits)

lemma hlc_wid_gen_next_step:
  "hlc_wid_gen_next now rnd out_len gen = Inr (gen', out)
     \<Longrightarrow> hlc_wid_gen_step now gen = Inr gen'"
  by (auto simp: hlc_wid_gen_next_def split: sum.splits)

lemma hlc_reachable_inv: "hlc_reachable gen \<Longrightarrow> hlc_gen_inv gen"
proof (induction rule: hlc_reachable.induct)
  case (hlc_init nd W Z unit gen)
  then show ?case by (rule hlc_gen_inv_init)
next
  case (hlc_next gen now rnd out_len gen' out)
  then show ?case using hlc_wid_gen_step_props hlc_wid_gen_next_step by blast
next
  case (hlc_observe gen now remote_pt remote_lc ok gen')
  then show ?case
    by (cases ok) (auto dest: hlc_wid_observe_props hlc_wid_observe_False)
qed

text \<open>
  \<^verbatim>\<open>hlc_wid_observe\<close> and the state part of \<^verbatim>\<open>hlc_wid_gen_next\<close> are defined (no
  signed overflow) whenever the values involved are below \<^verbatim>\<open>INT64_MAX\<close>.
\<close>

lemma hlc_wid_observe_succeeds:
  assumes "hlc_gen_inv gen" and "pt gen < INT64_MAX" and "now < INT64_MAX"
    and "0 \<le> remote_pt" and "remote_pt < INT64_MAX"
    and "0 \<le> remote_lc" and "remote_lc < INT64_MAX"
  shows "\<exists>gen'. hlc_wid_observe now gen remote_pt remote_lc = Inr (True, gen')"
proof -
  have "nat (hlc_W gen) \<le> 18" using assms(1) by (auto simp: hlc_gen_inv_def)
  then have "(10::int) ^ nat (hlc_W gen) \<le> 10 ^ 18"
    by (intro power_increasing) simp_all
  then have "lc gen + 1 \<le> 10 ^ 18" "0 \<le> lc gen" "0 \<le> pt gen"
    using assms(1) by (simp_all add: hlc_gen_inv_def)
  then show ?thesis using assms(2-)
    by (auto simp: hlc_wid_observe_def hlc_wid_rollover_if_needed_def add_i64_def
        INT64_MAX_def INT64_MIN_def Let_def)
qed

lemma hlc_wid_gen_step_succeeds:
  assumes "hlc_gen_inv gen" and "pt gen < INT64_MAX" and "now < INT64_MAX"
  shows "\<exists>gen'. hlc_wid_gen_step now gen = Inr gen'"
proof -
  have "nat (hlc_W gen) \<le> 18" using assms(1) by (auto simp: hlc_gen_inv_def)
  then have "(10::int) ^ nat (hlc_W gen) \<le> 10 ^ 18"
    by (intro power_increasing) simp_all
  then have "lc gen + 1 \<le> 10 ^ 18" "0 \<le> lc gen" "0 \<le> pt gen" "0 \<le> max_lc gen"
    using assms(1) pow10_ge_10 [of "hlc_W gen"] by (simp_all add: hlc_gen_inv_def)
  then show ?thesis using assms(2-)
    by (auto simp: hlc_wid_gen_step_def hlc_wid_rollover_if_needed_def add_i64_def
        INT64_MAX_def INT64_MIN_def Let_def)
qed

section \<open>Evaluation on concrete inputs\<close>

lemma digit_char_simps:
  "digit_char 0 = CHR ''0''" "digit_char 1 = CHR ''1''" "digit_char 2 = CHR ''2''"
  "digit_char 3 = CHR ''3''" "digit_char 4 = CHR ''4''" "digit_char 5 = CHR ''5''"
  "digit_char 6 = CHR ''6''" "digit_char 7 = CHR ''7''" "digit_char 8 = CHR ''8''"
  "digit_char 9 = CHR ''9''" "digit_char (Suc 0) = CHR ''1''"
  by code_simp+

lemma wid_fmt_tick_2026:
  "wid_fmt_tick WID_TIME_SEC 1770887730 = Inr ''20260212T091530''"
  "wid_fmt_tick WID_TIME_SEC 1770887731 = Inr ''20260212T091531''"
  by code_simp+

lemma replicate_numeral: "replicate (numeral k) x = x # replicate (pred_numeral k) x"
  by (simp add: numeral_eq_Suc)

lemmas eval_gen = replicate_numeral
  wid_gen_next_def wid_gen_step_def wid_gen_emit_def hlc_wid_gen_next_def hlc_wid_gen_step_def
  hlc_wid_gen_emit_def hlc_wid_rollover_if_needed_def hlc_wid_observe_def wid_random_hex_def
  add_i64_def INT64_MAX_def INT64_MIN_def printf_0d_def dec_digits.simps digit_char_simps
  c_snprintf_def WID_MAX_LEN_def WID_MAX_Z_def wid_gen_init_ex_fields Let_def wid_fmt_tick_2026

section \<open>Reading digits and printing them\<close>

lemma cstr_at_drop: "cstr_at (drop a s) i = cstr_at s (a + i)"
  by (auto simp: cstr_at_def)

lemma cstr_at_tl: "cstr_at (tl s) i = cstr_at s (Suc i)"
  by (cases s) (auto simp: cstr_at_def)

lemma cstr_at_nth: "i < length s \<Longrightarrow> cstr_at s i = s ! i"
  by (simp add: cstr_at_def)

lemma not_digit_NUL: "\<not> wid_is_digit (CHR 0x00)"
  by (simp add: wid_is_digit_def less_eq_char_def)

lemma digit_in_range: "wid_is_digit (cstr_at s i) \<Longrightarrow> i < length s"
  using not_digit_NUL by (auto simp: cstr_at_def split: if_splits)

lemma digit_value:
  assumes "wid_is_digit c"
  shows "0 \<le> int (of_char c) - 48" and "int (of_char c) - 48 \<le> 9"
    and "digit_char (nat (int (of_char c) - 48)) = c"
proof -
  have r: "48 \<le> (of_char c :: nat)" "(of_char c :: nat) \<le> 57"
    using assms by (simp_all add: wid_is_digit_def less_eq_char_def)
  then show "0 \<le> int (of_char c) - 48" "int (of_char c) - 48 \<le> 9" by simp_all
  have "48 + nat (int (of_char c) - 48) = (of_char c :: nat)" using r by simp
  then show "digit_char (nat (int (of_char c) - 48)) = c" by (simp add: digit_char_def)
qed

text \<open>The loop on a string that starts with \<open>n\<close> digits is a left fold.\<close>

lemma wid_parse_digits_loop_fold:
  "length ds = n \<Longrightarrow> list_all wid_is_digit ds \<Longrightarrow>
     wid_parse_digits_loop (ds @ rest) n v = foldl (\<lambda>v c. v * 10 + (int (of_char c) - 48)) v ds"
proof (induction ds arbitrary: n v)
  case Nil
  then show ?case by simp
next
  case (Cons c ds)
  then obtain m where n: "n = Suc m" "length ds = m" by (cases n) auto
  show ?case using Cons.prems Cons.IH [OF n(2), of "v * 10 + (int (of_char c) - 48)"]
    by (simp add: n cstr_at_def)
qed

lemma fold_digits_nonneg:
  "0 \<le> v \<Longrightarrow> list_all wid_is_digit ds \<Longrightarrow>
     0 \<le> foldl (\<lambda>v c. v * 10 + (int (of_char c) - 48)) v ds"
proof (induction ds arbitrary: v)
  case Nil
  then show ?case by simp
next
  case (Cons c ds)
  have "0 \<le> v * 10 + (int (of_char c) - 48)"
    using Cons.prems digit_value(1) [of c] by simp
  then show ?case using Cons by simp
qed

text \<open>Printing the value of a digit string with the string's width gives the string back.\<close>

lemma printf_digits_roundtrip:
  assumes "ds \<noteq> []" and "list_all wid_is_digit ds"
  shows "printf_0d (int (length ds)) (foldl (\<lambda>v c. v * 10 + (int (of_char c) - 48)) 0 ds) = ds"
  using assms
proof (induction ds rule: rev_induct)
  case Nil
  then show ?case by simp
next
  case (snoc c ds)
  let ?f = "\<lambda>v c. v * 10 + (int (of_char c) - 48)"
  let ?m = "foldl ?f 0 ds"
  have dig: "list_all wid_is_digit ds" "wid_is_digit c" using snoc.prems by simp_all
  have m0: "0 \<le> ?m" using dig(1) by (intro fold_digits_nonneg) simp_all
  note d = digit_value [OF dig(2)]
  define dv where "dv = nat (int (of_char c) - 48)"
  have dv: "int dv = int (of_char c) - 48" "dv \<le> 9" "digit_char dv = c"
    using d by (simp_all add: dv_def)
  have val: "nat (foldl ?f 0 (ds @ [c])) = 10 * nat ?m + dv"
    using m0 dv by (simp add: nat_add_distrib nat_mult_distrib)
  have nonneg: "\<not> foldl ?f 0 (ds @ [c]) < 0" using m0 d by simp
  have w: "nat (1 + int (length ds)) = Suc (length ds)" by simp
  show ?case
  proof (cases "nat ?m = 0")
    case True
    then have dd: "dec_digits (10 * nat ?m + dv) = [c]"
      using dv by (subst dec_digits.simps) simp
    have "replicate (length ds) CHR ''0'' = ds"
    proof (cases "ds = []")
      case True
      then show ?thesis by simp
    next
      case False
      from snoc.IH [OF False dig(1)] True m0
      have "replicate (length ds - 1) CHR ''0'' @ [digit_char 0] = ds"
        by (simp add: printf_0d_def dec_digits.simps [of 0])
      moreover have "digit_char 0 = CHR ''0''" by (rule digit_char_simps)
      moreover have "replicate (length ds - 1) CHR ''0'' @ [CHR ''0''] = replicate (length ds) CHR ''0''"
        using False by (cases ds) (simp_all add: replicate_append_same)
      ultimately show ?thesis by simp
    qed
    then show ?thesis using nonneg val dd w by (simp add: printf_0d_def)
  next
    case False
    then have big: "\<not> 10 * nat ?m + dv < 10" by arith
    have "(10 * nat ?m + dv) div 10 = nat ?m" "(10 * nat ?m + dv) mod 10 = dv"
      using dv(2) by simp_all
    then have dd: "dec_digits (10 * nat ?m + dv) = dec_digits (nat ?m) @ [c]"
      using dv(3) big by (subst dec_digits.simps) simp
    from False have ne: "ds \<noteq> []" by auto
    from snoc.IH [OF ne dig(1)] m0
    have ih: "replicate (length ds - length (dec_digits (nat ?m))) CHR ''0'' @ dec_digits (nat ?m) = ds"
      by (simp add: printf_0d_def)
    show ?thesis using nonneg val dd ih w by (simp add: printf_0d_def)
  qed
qed

lemma field_roundtrip:
  assumes "\<forall>i. a \<le> i \<and> i < a + n \<longrightarrow> wid_is_digit (cstr_at s i)" and "0 < n"
  shows "a + n \<le> length s"
    and "0 \<le> wid_parse_digits_i64 (drop a s) (int n)"
    and "printf_0d (int n) (wid_parse_digits_i64 (drop a s) (int n)) = take n (drop a s)"
proof -
  have "wid_is_digit (cstr_at s (a + n - 1))" using assms by simp
  then have "a + n - 1 < length s" by (rule digit_in_range)
  then show len: "a + n \<le> length s" using assms(2) by simp
  let ?ds = "take n (drop a s)"
  have lds: "length ?ds = n" using len by simp
  have "wid_is_digit (?ds ! i)" if "i < n" for i
  proof -
    have "?ds ! i = s ! (a + i)" using that len by simp
    moreover have "cstr_at s (a + i) = s ! (a + i)" using that len by (simp add: cstr_at_def)
    moreover have "wid_is_digit (cstr_at s (a + i))" using assms(1) that by simp
    ultimately show ?thesis by simp
  qed
  then have dig: "list_all wid_is_digit ?ds" using lds by (simp add: list_all_length)
  have "wid_parse_digits_loop (?ds @ drop n (drop a s)) n 0
          = foldl (\<lambda>v c. v * 10 + (int (of_char c) - 48)) 0 ?ds"
    using lds dig by (rule wid_parse_digits_loop_fold)
  then have "wid_parse_digits_loop (drop a s) n 0
          = foldl (\<lambda>v c. v * 10 + (int (of_char c) - 48)) 0 ?ds"
    by (simp only: append_take_drop_id)
  then have v: "wid_parse_digits_i64 (drop a s) (int n)
          = foldl (\<lambda>v c. v * 10 + (int (of_char c) - 48)) 0 ?ds"
    by (simp add: wid_parse_digits_i64_def)
  show "0 \<le> wid_parse_digits_i64 (drop a s) (int n)"
    unfolding v using dig by (intro fold_digits_nonneg) simp_all
  have ne: "?ds \<noteq> []" using lds assms(2) by auto
  from printf_digits_roundtrip [OF ne dig] lds
  show "printf_0d (int n) (wid_parse_digits_i64 (drop a s) (int n)) = ?ds"
    unfolding v by simp
qed

lemma wid_parse_timestamp_SomeD:
  assumes "wid_parse_timestamp s unit = Some (y, mo, d, h, mi, se, ms)"
  shows "cstr_at s 8 = CHR ''T''"
    and "\<forall>i. 0 \<le> i \<and> i < 0 + 8 \<longrightarrow> wid_is_digit (cstr_at s i)"
    and "\<forall>i. 9 \<le> i \<and> i < 9 + 6 \<longrightarrow> wid_is_digit (cstr_at s i)"
    and "y = wid_parse_digits_i64 (drop 0 s) 4"
    and "mo = wid_parse_digits_i64 (drop 4 s) 2"
    and "d = wid_parse_digits_i64 (drop 6 s) 2"
    and "h = wid_parse_digits_i64 (drop 9 s) 2"
    and "mi = wid_parse_digits_i64 (drop 11 s) 2"
    and "se = wid_parse_digits_i64 (drop 13 s) 2"
    and "wid_valid_ymdhms y mo d h mi se"
    and "unit = WID_TIME_MS \<Longrightarrow>
           (\<forall>i. 15 \<le> i \<and> i < 15 + 3 \<longrightarrow> wid_is_digit (cstr_at s i))
           \<and> ms = wid_parse_digits_i64 (drop 15 s) 3"
    and "unit \<noteq> WID_TIME_MS \<Longrightarrow> ms = 0"
    and "cstr_at s (nat (wid_timestamp_len unit)) = CHR ''.''"
  using assms
  by (auto simp: wid_parse_timestamp_def Let_def list_all_iff simp del: upt_rec_numeral
      split: if_splits option.splits)

section \<open>Round trip of the timestamp and the counter\<close>

lemma render_ts_roundtrip:
  assumes "wid_parse_timestamp s unit = Some (y, mo, d, h, mi, se, ms)"
  shows "nat (wid_timestamp_len unit) < length s"
    and "render_ts unit y mo d h mi se ms @ ''.'' = take (nat (wid_timestamp_len unit) + 1) s"
proof -
  note D = wid_parse_timestamp_SomeD [OF assms]
  have p0: "\<forall>i. 0 \<le> i \<and> i < 0 + 4 \<longrightarrow> wid_is_digit (cstr_at s i)" using D(2) by auto
  have p4: "\<forall>i. 4 \<le> i \<and> i < 4 + 2 \<longrightarrow> wid_is_digit (cstr_at s i)" using D(2) by auto
  have p6: "\<forall>i. 6 \<le> i \<and> i < 6 + 2 \<longrightarrow> wid_is_digit (cstr_at s i)" using D(2) by auto
  have p9: "\<forall>i. 9 \<le> i \<and> i < 9 + 2 \<longrightarrow> wid_is_digit (cstr_at s i)" using D(3) by auto
  have p11: "\<forall>i. 11 \<le> i \<and> i < 11 + 2 \<longrightarrow> wid_is_digit (cstr_at s i)" using D(3) by auto
  have p13: "\<forall>i. 13 \<le> i \<and> i < 13 + 2 \<longrightarrow> wid_is_digit (cstr_at s i)" using D(3) by auto
  have f0: "printf_0d 4 y = take 4 s" using field_roundtrip(3) [OF p0] D(4) by simp
  have f4: "printf_0d 2 mo = take 2 (drop 4 s)" using field_roundtrip(3) [OF p4] D(5) by simp
  have f6: "printf_0d 2 d = take 2 (drop 6 s)" using field_roundtrip(3) [OF p6] D(6) by simp
  have f9: "printf_0d 2 h = take 2 (drop 9 s)" using field_roundtrip(3) [OF p9] D(7) by simp
  have f11: "printf_0d 2 mi = take 2 (drop 11 s)" using field_roundtrip(3) [OF p11] D(8) by simp
  have f13: "printf_0d 2 se = take 2 (drop 13 s)" using field_roundtrip(3) [OF p13] D(9) by simp
  have len15: "15 \<le> length s" using field_roundtrip(1) [OF p13] by simp
  have T: "s ! 8 = CHR ''T''" using D(1) len15 by (simp add: cstr_at_def)
  have t6: "take 6 s = take 4 s @ take 2 (drop 4 s)" using take_add [of 4 2 s] by simp
  have t8: "take 8 s = take 6 s @ take 2 (drop 6 s)" using take_add [of 6 2 s] by simp
  have t9: "take 9 s = take 8 s @ [s ! 8]"
    using take_Suc_conv_app_nth [of 8 s] len15 by simp
  have t11: "take 11 s = take 9 s @ take 2 (drop 9 s)" using take_add [of 9 2 s] by simp
  have t13: "take 13 s = take 11 s @ take 2 (drop 11 s)" using take_add [of 11 2 s] by simp
  have t15: "take 15 s = take 13 s @ take 2 (drop 13 s)" using take_add [of 13 2 s] by simp
  have base: "printf_0d 4 y @ printf_0d 2 mo @ printf_0d 2 d @ ''T'' @ printf_0d 2 h
      @ printf_0d 2 mi @ printf_0d 2 se = take 15 s"
    by (simp add: f0 f4 f6 f9 f11 f13 t6 t8 t9 t11 t13 t15 T)
  have dot: "cstr_at s (nat (wid_timestamp_len unit)) = CHR ''.''" by (rule D(13))
  then show inrange: "nat (wid_timestamp_len unit) < length s"
    by (auto simp: cstr_at_def split: if_splits)
  show "render_ts unit y mo d h mi se ms @ ''.'' = take (nat (wid_timestamp_len unit) + 1) s"
  proof (cases "unit = WID_TIME_MS")
    case True
    from D(11) [OF True] have p15: "\<forall>i. 15 \<le> i \<and> i < 15 + 3 \<longrightarrow> wid_is_digit (cstr_at s i)"
      and ms: "ms = wid_parse_digits_i64 (drop 15 s) 3" by simp_all
    have f15: "printf_0d 3 ms = take 3 (drop 15 s)" using field_roundtrip(3) [OF p15] ms by simp
    have t18: "take 18 s = take 15 s @ take 3 (drop 15 s)" using take_add [of 15 3 s] by simp
    have l: "18 < length s" and d18: "s ! 18 = CHR ''.''"
      using inrange dot True by (simp_all add: wid_timestamp_len_def cstr_at_def)
    have t19: "take 19 s = take 18 s @ [s ! 18]"
      using take_Suc_conv_app_nth [of 18 s] l by simp
    have "render_ts unit y mo d h mi se ms = take 18 s"
      using base True by (simp add: render_ts_def f15 t18)
    then show ?thesis using True by (simp add: wid_timestamp_len_def t19 d18)
  next
    case False
    have l: "15 < length s" and d15: "s ! 15 = CHR ''.''"
      using inrange dot False by (simp_all add: wid_timestamp_len_def cstr_at_def)
    have t16: "take 16 s = take 15 s @ [s ! 15]"
      using take_Suc_conv_app_nth [of 15 s] l by simp
    have "render_ts unit y mo d h mi se ms = take 15 s"
      using base False by (simp add: render_ts_def)
    then show ?thesis using False by (simp add: wid_timestamp_len_def t16 d15)
  qed
qed

lemma wid_timestamp_len_cases: "wid_timestamp_len unit = 15 \<or> wid_timestamp_len unit = 18"
  by (simp add: wid_timestamp_len_def)

lemma wid_valid_suffix_D:
  "wid_valid_suffix suffix Z \<Longrightarrow>
     suffix = [] \<or> (0 < Z \<and> (\<exists>pad. suffix = CHR ''-'' # pad \<and> int (length pad) = Z
                                   \<and> list_all wid_is_lower_hex pad))"
  by (cases suffix) (auto simp: wid_valid_suffix_def Let_def split: if_splits)

lemma wid_validate_ex_D:
  assumes "wid_validate_ex s W Z unit"
  shows "1 \<le> W" and "W \<le> 18" and "0 \<le> Z" and "Z \<le> 64"
    and "wid_timestamp_len unit + 1 + W + 1 \<le> int (length s)"
    and "wid_parse_timestamp s unit \<noteq> None"
    and "cstr_at s (nat (wid_timestamp_len unit + 1 + W)) = CHR ''Z''"
    and "\<forall>i. nat (wid_timestamp_len unit + 1) \<le> i \<and> i < nat (wid_timestamp_len unit + 1) + nat W
           \<longrightarrow> wid_is_digit (cstr_at s i)"
    and "wid_valid_suffix (drop (nat (wid_timestamp_len unit + 1 + W + 1)) s) Z"
  using assms wid_timestamp_len_cases [of unit]
  by (auto simp: wid_validate_ex_def Let_def WID_MAX_W_def WID_MAX_Z_def list_all_iff
      split: if_splits)

text \<open>
  The common prefix of both formats: timestamp, dot, counter and \<open>Z\<close>, as rendered
  from the fields the parsers store.
\<close>

lemma prefix_roundtrip:
  assumes ts: "wid_parse_timestamp s unit = Some (y, mo, d, h, mi, se, ms)"
    and W: "1 \<le> W"
    and dig: "\<forall>i. nat (wid_timestamp_len unit + 1) \<le> i
                \<and> i < nat (wid_timestamp_len unit + 1) + nat W \<longrightarrow> wid_is_digit (cstr_at s i)"
    and Zc: "cstr_at s (nat (wid_timestamp_len unit + 1 + W)) = CHR ''Z''"
  shows "0 \<le> wid_parse_digits_i64 (drop (nat (wid_timestamp_len unit + 1)) s) W"
    and "render_ts unit y mo d h mi se ms @ ''.''
           @ printf_0d W (wid_parse_digits_i64 (drop (nat (wid_timestamp_len unit + 1)) s) W)
           @ ''Z'' @ drop (nat (wid_timestamp_len unit + 1 + W + 1)) s = s"
proof -
  define a where "a = nat (wid_timestamp_len unit + 1)"
  define n where "n = nat W"
  have n: "0 < n" "int n = W" using W by (simp_all add: n_def)
  have a: "a = nat (wid_timestamp_len unit) + 1"
    using wid_timestamp_len_cases [of unit] by (auto simp: a_def)
  have an: "nat (wid_timestamp_len unit + 1 + W) = a + n"
    using wid_timestamp_len_cases [of unit] W by (auto simp: a_def n_def)
  have an1: "nat (wid_timestamp_len unit + 1 + W + 1) = Suc (a + n)"
    using wid_timestamp_len_cases [of unit] W by (auto simp: a_def n_def)
  have dig': "\<forall>i. a \<le> i \<and> i < a + n \<longrightarrow> wid_is_digit (cstr_at s i)"
    using dig by (simp add: a_def n_def)
  note F = field_roundtrip [OF dig' n(1)]
  show "0 \<le> wid_parse_digits_i64 (drop (nat (wid_timestamp_len unit + 1)) s) W"
    using F(2) n(2) by (simp add: a_def)
  have sq: "printf_0d W (wid_parse_digits_i64 (drop a s) W) = take n (drop a s)"
    using F(3) n(2) by simp
  have head: "render_ts unit y mo d h mi se ms @ ''.'' = take a s"
    using render_ts_roundtrip(2) [OF ts] a by simp
  have zin: "a + n < length s" and z: "s ! (a + n) = CHR ''Z''"
    using Zc an by (auto simp: cstr_at_def split: if_splits)
  have "s = take a s @ drop a s" by simp
  also have "drop a s = take n (drop a s) @ drop n (drop a s)"
    by (simp only: append_take_drop_id)
  also have "drop n (drop a s) = drop (a + n) s" by (simp add: add.commute)
  also have "drop (a + n) s = s ! (a + n) # drop (Suc (a + n)) s"
    using zin by (simp add: Cons_nth_drop_Suc)
  finally have "s = take a s @ take n (drop a s) @ CHR ''Z'' # drop (Suc (a + n)) s"
    using z by simp
  then show "render_ts unit y mo d h mi se ms @ ''.''
           @ printf_0d W (wid_parse_digits_i64 (drop (nat (wid_timestamp_len unit + 1)) s) W)
           @ ''Z'' @ drop (nat (wid_timestamp_len unit + 1 + W + 1)) s = s"
    using head sq an1 unfolding a_def [symmetric] by (simp only: append_assoc [symmetric]) simp
qed

lemma wid_parse_ex_roundtrip:
  assumes "wid_validate_ex s W Z unit"
  shows "\<exists>p. wid_parse_ex s W Z unit = Some p \<and> render_wid W unit p = s"
proof -
  note V = wid_validate_ex_D [OF assms]
  from V(6) obtain y mo d h mi se ms where
    ts: "wid_parse_timestamp s unit = Some (y, mo, d, h, mi, se, ms)" by auto
  note P = prefix_roundtrip [OF ts V(1) V(8) V(7)]
  let ?suffix = "drop (nat (wid_timestamp_len unit + 1 + W + 1)) s"
  let ?sq = "wid_parse_digits_i64 (drop (nat (wid_timestamp_len unit + 1)) s) W"
  from wid_valid_suffix_D [OF V(9)] show ?thesis
  proof
    assume e: "?suffix = []"
    then have "wid_parse_ex s W Z unit
        = Some \<lparr> raw = s, year = y, month = mo, day = d, hour = h, minute = mi, second = se,
                 millisecond = ms, sequence = ?sq, has_padding = False, padding = [] \<rparr>"
      using assms ts P(1) by (simp add: wid_parse_ex_def Let_def)
    moreover have "render_wid W unit \<lparr> raw = s, year = y, month = mo, day = d, hour = h,
                 minute = mi, second = se, millisecond = ms, sequence = ?sq,
                 has_padding = False, padding = [] \<rparr> = s"
      using P(2) e by (simp add: render_wid_def)
    ultimately show ?thesis by blast
  next
    assume "0 < Z \<and> (\<exists>pad. ?suffix = CHR ''-'' # pad \<and> int (length pad) = Z
                                   \<and> list_all wid_is_lower_hex pad)"
    then obtain pad where pad: "?suffix = CHR ''-'' # pad" "int (length pad) = Z" by auto
    then have "wid_parse_ex s W Z unit
        = Some \<lparr> raw = s, year = y, month = mo, day = d, hour = h, minute = mi, second = se,
                 millisecond = ms, sequence = ?sq, has_padding = True, padding = pad \<rparr>"
      using assms ts P(1) V(4) by (simp add: wid_parse_ex_def Let_def WID_MAX_Z_def)
    moreover have "render_wid W unit \<lparr> raw = s, year = y, month = mo, day = d, hour = h,
                 minute = mi, second = se, millisecond = ms, sequence = ?sq,
                 has_padding = True, padding = pad \<rparr> = s"
      using P(2) pad(1) by (simp add: render_wid_def)
    ultimately show ?thesis by blast
  qed
qed

lemma wid_parse_ex_iff: "wid_parse_ex s W Z unit \<noteq> None \<longleftrightarrow> wid_validate_ex s W Z unit"
proof
  assume "wid_parse_ex s W Z unit \<noteq> None"
  then show "wid_validate_ex s W Z unit" by (auto simp: wid_parse_ex_def split: if_splits)
next
  assume "wid_validate_ex s W Z unit"
  from wid_parse_ex_roundtrip [OF this] show "wid_parse_ex s W Z unit \<noteq> None" by auto
qed

section \<open>The node and padding of an HLC-WID\<close>

lemma hlc_node_scan_NoDash:
  "hlc_node_scan xs k = NoDash \<Longrightarrow> CHR ''-'' \<notin> set xs \<and> list_all wid_is_node_char xs"
  by (induction xs arbitrary: k) (auto split: if_splits)

lemma hlc_node_scan_DashAt:
  "hlc_node_scan xs k = DashAt j \<Longrightarrow>
     \<exists>m. j = k + m \<and> m < length xs \<and> xs ! m = CHR ''-'' \<and> CHR ''-'' \<notin> set (take m xs)
         \<and> list_all wid_is_node_char (take m xs)"
proof (induction xs arbitrary: k)
  case Nil
  then show ?case by simp
next
  case (Cons c cs)
  show ?case
  proof (cases "c = CHR ''-''")
    case True
    then show ?thesis using Cons.prems by (intro exI [of _ 0]) simp
  next
    case False
    then have ok: "wid_is_node_char c" and rest: "hlc_node_scan cs (Suc k) = DashAt j"
      using Cons.prems by (auto split: if_splits)
    from Cons.IH [OF rest] obtain m where
      m: "j = Suc k + m" "m < length cs" "cs ! m = CHR ''-''" "CHR ''-'' \<notin> set (take m cs)"
         "list_all wid_is_node_char (take m cs)" by auto
    show ?thesis using m False ok by (intro exI [of _ "Suc m"]) simp
  qed
qed

lemma hlc_node_scan_BadChar:
  "hlc_node_scan xs k = BadChar \<Longrightarrow> \<not> list_all wid_is_node_char (takeWhile (\<lambda>c. c \<noteq> CHR ''-'') xs)"
  by (induction xs arbitrary: k) (auto split: if_splits)

lemma c_strchr_None: "c \<notin> set xs \<Longrightarrow> c_strchr xs c = None"
  by (induction xs) auto

lemma c_strchr_Some:
  "m < length xs \<Longrightarrow> xs ! m = c \<Longrightarrow> c \<notin> set (take m xs) \<Longrightarrow> c_strchr xs c = Some m"
proof (induction xs arbitrary: m)
  case Nil
  then show ?case by simp
next
  case (Cons x xs)
  then show ?case by (cases m) auto
qed

lemma takeWhile_first:
  "m < length xs \<Longrightarrow> xs ! m = c \<Longrightarrow> c \<notin> set (take m xs)
     \<Longrightarrow> takeWhile (\<lambda>x. x \<noteq> c) xs = take m xs"
proof (induction xs arbitrary: m)
  case Nil
  then show ?case by simp
next
  case (Cons x xs)
  then show ?case by (cases m) auto
qed

lemma takeWhile_none: "c \<notin> set xs \<Longrightarrow> takeWhile (\<lambda>x. x \<noteq> c) xs = xs"
  by (induction xs) auto

lemma hlc_wid_validate_ex_D:
  assumes "hlc_wid_validate_ex s W Z unit"
  shows "1 \<le> W" and "W \<le> 18" and "0 \<le> Z" and "Z \<le> 64"
    and "wid_timestamp_len unit + 1 + W + 1 + 2 \<le> int (length s)"
    and "wid_parse_timestamp s unit \<noteq> None"
    and "cstr_at s (nat (wid_timestamp_len unit + 1 + W)) = CHR ''Z''"
    and "\<forall>i. nat (wid_timestamp_len unit + 1) \<le> i \<and> i < nat (wid_timestamp_len unit + 1) + nat W
           \<longrightarrow> wid_is_digit (cstr_at s i)"
    and "cstr_at s (nat (wid_timestamp_len unit + 1 + W + 1)) = CHR ''-''"
    and "(hlc_node_scan (drop (nat (wid_timestamp_len unit + 1 + W + 1 + 1)) s) 0 = NoDash
           \<and> drop (nat (wid_timestamp_len unit + 1 + W + 1 + 1)) s \<noteq> [])
         \<or> (\<exists>k. hlc_node_scan (drop (nat (wid_timestamp_len unit + 1 + W + 1 + 1)) s) 0 = DashAt k
               \<and> 0 < k
               \<and> wid_valid_suffix (drop k (drop (nat (wid_timestamp_len unit + 1 + W + 1 + 1)) s)) Z)"
  using assms wid_timestamp_len_cases [of unit]
  by (auto simp: hlc_wid_validate_ex_def Let_def WID_MAX_W_def WID_MAX_Z_def list_all_iff
      split: if_splits node_scan.splits)

text \<open>
  What the validator and the parser see after the \<open>Z-\<close>: a node without a dash in
  it, then nothing or a dash and the padding.
\<close>

lemma hlc_validate_shape:
  assumes "hlc_wid_validate_ex s W Z unit"
  defines "ns \<equiv> drop (nat (wid_timestamp_len unit + 1 + W + 1 + 1)) s"
  shows "(ns \<noteq> [] \<and> CHR ''-'' \<notin> set ns \<and> c_strchr ns CHR ''-'' = None
            \<and> hlc_node_segment s W unit = ns)
       \<or> (\<exists>k pad. 0 < k \<and> k < length ns \<and> c_strchr ns CHR ''-'' = Some k
            \<and> hlc_node_segment s W unit = take k ns \<and> ns = take k ns @ CHR ''-'' # pad
            \<and> drop (k + 1) ns = pad \<and> int (length pad) = Z)"
proof -
  note V = hlc_wid_validate_ex_D [OF assms(1)]
  from V(10) show ?thesis
  proof (elim disjE conjE exE)
    assume "hlc_node_scan (drop (nat (wid_timestamp_len unit + 1 + W + 1 + 1)) s) 0 = NoDash"
      and ne: "drop (nat (wid_timestamp_len unit + 1 + W + 1 + 1)) s \<noteq> []"
    then have nd: "CHR ''-'' \<notin> set ns" using hlc_node_scan_NoDash unfolding ns_def by blast
    then show ?thesis using ne
      by (simp add: c_strchr_None takeWhile_none hlc_node_segment_def ns_def)
  next
    fix k
    assume scan: "hlc_node_scan (drop (nat (wid_timestamp_len unit + 1 + W + 1 + 1)) s) 0 = DashAt k"
      and k: "0 < k"
      and suf: "wid_valid_suffix (drop k (drop (nat (wid_timestamp_len unit + 1 + W + 1 + 1)) s)) Z"
    from hlc_node_scan_DashAt [OF scan]
    have m: "k < length ns" "ns ! k = CHR ''-''" "CHR ''-'' \<notin> set (take k ns)"
      unfolding ns_def by auto
    have dk: "drop k ns = CHR ''-'' # drop (Suc k) ns"
      using m(1,2) by (simp add: Cons_nth_drop_Suc [symmetric])
    from wid_valid_suffix_D [OF suf] dk have len: "int (length (drop (Suc k) ns)) = Z"
      unfolding ns_def by auto
    have "ns = take k ns @ drop k ns" by simp
    then have split: "ns = take k ns @ CHR ''-'' # drop (Suc k) ns" using dk by simp
    have seg: "hlc_node_segment s W unit = take k ns"
      using takeWhile_first [OF m] by (simp add: hlc_node_segment_def ns_def)
    show ?thesis
      using k m(1) c_strchr_Some [OF m] seg split len
      by (intro disjI2 exI [of _ k] exI [of _ "drop (Suc k) ns"]) simp
  qed
qed

lemma hlc_wid_parse_ex_roundtrip:
  assumes v: "hlc_wid_validate_ex s W Z unit"
    and short: "length (hlc_node_segment s W unit) < 64"
  shows "\<exists>p. hlc_wid_parse_ex s W Z unit = Some p \<and> render_hlc_wid W unit p = s"
proof -
  note V = hlc_wid_validate_ex_D [OF v]
  from V(6) obtain y mo d h mi se ms where
    ts: "wid_parse_timestamp s unit = Some (y, mo, d, h, mi, se, ms)" by auto
  note P = prefix_roundtrip [OF ts V(1) V(8) V(7)]
  define pl where "pl = nat (wid_timestamp_len unit + 1 + W + 1)"
  define ns where "ns = drop (nat (wid_timestamp_len unit + 1 + W + 1 + 1)) s"
  let ?l = "wid_parse_digits_i64 (drop (nat (wid_timestamp_len unit + 1)) s) W"
  have pl1: "nat (wid_timestamp_len unit + 1 + W + 1 + 1) = Suc pl"
    using V(1) wid_timestamp_len_cases [of unit] by (auto simp: pl_def)
  have dash: "pl < length s" "s ! pl = CHR ''-''"
    using V(9) by (auto simp: pl_def cstr_at_def split: if_splits)
  have ns': "ns = drop (Suc pl) s" unfolding ns_def by (simp only: pl1)
  have tail: "drop pl s = CHR ''-'' # ns"
    using Cons_nth_drop_Suc [OF dash(1)] dash(2) ns' by simp
  have whole: "render_ts unit y mo d h mi se ms @ ''.'' @ printf_0d W ?l @ ''Z'' @ ''-'' @ ns = s"
    using P(2) tail by (simp add: pl_def)
  from hlc_validate_shape [OF v] show ?thesis
  proof (elim disjE conjE exE)
    assume ne: "drop (nat (wid_timestamp_len unit + 1 + W + 1 + 1)) s \<noteq> []"
      and none: "c_strchr (drop (nat (wid_timestamp_len unit + 1 + W + 1 + 1)) s) CHR ''-'' = None"
      and seg: "hlc_node_segment s W unit = drop (nat (wid_timestamp_len unit + 1 + W + 1 + 1)) s"
    have len: "length ns < 64" "ns \<noteq> []" using short seg ne by (simp_all add: ns_def)
    have "hlc_wid_parse_ex s W Z unit
        = Some \<lparr> hlc_raw = s, hlc_year = y, hlc_month = mo, hlc_day = d, hlc_hour = h,
                 hlc_minute = mi, hlc_second = se, hlc_millisecond = ms, logical_counter = ?l,
                 node = ns, hlc_has_padding = False, hlc_padding = [] \<rparr>"
      using v ts P(1) none len by (simp add: hlc_wid_parse_ex_def Let_def ns_def)
    moreover have "render_hlc_wid W unit \<lparr> hlc_raw = s, hlc_year = y, hlc_month = mo,
                 hlc_day = d, hlc_hour = h, hlc_minute = mi, hlc_second = se,
                 hlc_millisecond = ms, logical_counter = ?l,
                 node = ns, hlc_has_padding = False, hlc_padding = [] \<rparr> = s"
      using whole by (simp add: render_hlc_wid_def)
    ultimately show ?thesis by blast
  next
    fix k pad
    assume k: "0 < k" "k < length (drop (nat (wid_timestamp_len unit + 1 + W + 1 + 1)) s)"
      and some: "c_strchr (drop (nat (wid_timestamp_len unit + 1 + W + 1 + 1)) s) CHR ''-'' = Some k"
      and seg: "hlc_node_segment s W unit
                  = take k (drop (nat (wid_timestamp_len unit + 1 + W + 1 + 1)) s)"
      and split: "drop (nat (wid_timestamp_len unit + 1 + W + 1 + 1)) s
                  = take k (drop (nat (wid_timestamp_len unit + 1 + W + 1 + 1)) s) @ CHR ''-'' # pad"
      and pad: "drop (k + 1) (drop (nat (wid_timestamp_len unit + 1 + W + 1 + 1)) s) = pad"
        "int (length pad) = Z"
    have k64: "k < 64" using short seg k(2) by simp
    have "hlc_wid_parse_ex s W Z unit
        = Some \<lparr> hlc_raw = s, hlc_year = y, hlc_month = mo, hlc_day = d, hlc_hour = h,
                 hlc_minute = mi, hlc_second = se, hlc_millisecond = ms, logical_counter = ?l,
                 node = take k ns, hlc_has_padding = True, hlc_padding = pad \<rparr>"
      using v ts P(1) some k(1) k64 pad V(4)
      by (simp add: hlc_wid_parse_ex_def Let_def ns_def WID_MAX_Z_def)
    moreover have "ns = take k ns @ CHR ''-'' # pad" using split by (simp add: ns_def)
    then have "render_hlc_wid W unit \<lparr> hlc_raw = s, hlc_year = y, hlc_month = mo,
                 hlc_day = d, hlc_hour = h, hlc_minute = mi, hlc_second = se,
                 hlc_millisecond = ms, logical_counter = ?l,
                 node = take k ns, hlc_has_padding = True, hlc_padding = pad \<rparr> = s"
      using whole by (simp add: render_hlc_wid_def)
    ultimately show ?thesis by blast
  qed
qed

lemma hlc_wid_parse_ex_long_node:
  assumes "64 \<le> length (hlc_node_segment s W unit)"
  shows "hlc_wid_parse_ex s W Z unit = None"
proof (cases "hlc_wid_validate_ex s W Z unit")
  case False
  then show ?thesis by (simp add: hlc_wid_parse_ex_def)
next
  case True
  define ns where "ns = drop (nat (wid_timestamp_len unit + 1 + W + 1 + 1)) s"
  have "(case c_strchr ns CHR ''-'' of Some k \<Rightarrow> k | None \<Rightarrow> length ns)
          = length (hlc_node_segment s W unit)"
    using hlc_validate_shape [OF True] unfolding ns_def by auto
  then show ?thesis using assms True
    by (auto simp: hlc_wid_parse_ex_def Let_def ns_def split: option.splits prod.splits)
qed

lemma hlc_wid_parse_ex_iff:
  "hlc_wid_parse_ex s W Z unit \<noteq> None
     \<longleftrightarrow> hlc_wid_validate_ex s W Z unit \<and> length (hlc_node_segment s W unit) < 64"
proof
  assume p: "hlc_wid_parse_ex s W Z unit \<noteq> None"
  then have "hlc_wid_validate_ex s W Z unit" by (auto simp: hlc_wid_parse_ex_def split: if_splits)
  moreover have "length (hlc_node_segment s W unit) < 64"
    using p hlc_wid_parse_ex_long_node [of s W unit Z] by (cases "64 \<le> length (hlc_node_segment s W unit)") auto
  ultimately show "hlc_wid_validate_ex s W Z unit \<and> length (hlc_node_segment s W unit) < 64" by simp
next
  assume "hlc_wid_validate_ex s W Z unit \<and> length (hlc_node_segment s W unit) < 64"
  then show "hlc_wid_parse_ex s W Z unit \<noteq> None"
    using hlc_wid_parse_ex_roundtrip [of s W Z unit] by auto
qed

lemma hlc_node_scan_replicate:
  "wid_is_node_char c \<Longrightarrow> c \<noteq> CHR ''-'' \<Longrightarrow> hlc_node_scan (replicate n c) k = NoDash"
  by (induction n arbitrary: k) auto

lemma long_node_validates:
  assumes "1 \<le> n"
  shows "hlc_wid_validate_ex (''20260212T091530.0000Z-'' @ replicate n CHR ''a'') 4 0 WID_TIME_SEC"
    and "hlc_node_segment (''20260212T091530.0000Z-'' @ replicate n CHR ''a'') 4 WID_TIME_SEC
           = replicate n CHR ''a''"
proof -
  have a: "wid_is_node_char CHR ''a''" "CHR ''a'' \<noteq> CHR ''-''" by code_simp+
  have ts: "wid_parse_timestamp (''20260212T091530.0000Z-'' @ replicate n CHR ''a'') WID_TIME_SEC
      = Some (2026, 2, 12, 9, 15, 30, 0)"
    by (simp add: wid_parse_timestamp_def wid_timestamp_len_def cstr_at_def nth_append
        wid_is_digit_def less_eq_char_def wid_parse_digits_i64_def eval_nat_numeral
        wid_valid_ymdhms_def days_in_month_def wid_is_leap_year_def Let_def)
  show "hlc_wid_validate_ex (''20260212T091530.0000Z-'' @ replicate n CHR ''a'') 4 0 WID_TIME_SEC"
    using assms ts hlc_node_scan_replicate [OF a]
    by (simp add: hlc_wid_validate_ex_def wid_timestamp_len_def cstr_at_def nth_append
        wid_is_digit_def less_eq_char_def WID_MAX_W_def WID_MAX_Z_def Let_def)
  show "hlc_node_segment (''20260212T091530.0000Z-'' @ replicate n CHR ''a'') 4 WID_TIME_SEC
           = replicate n CHR ''a''"
    by (simp add: hlc_node_segment_def wid_timestamp_len_def takeWhile_none)
qed

section \<open>Printed numbers read back\<close>

lemma digit_char_is_digit: "d < 10 \<Longrightarrow> wid_is_digit (digit_char d)"
  by (simp add: wid_is_digit_def digit_char_def less_eq_char_def)

lemma digit_char_value: "d < 10 \<Longrightarrow> int (of_char (digit_char d)) - 48 = int d"
  by (simp add: digit_char_def)

lemma dec_digits_are_digits: "list_all wid_is_digit (dec_digits m)"
proof (induction m rule: dec_digits.induct)
  case (1 n)
  show ?case
  proof (cases "n < 10")
    case True
    then show ?thesis by (subst dec_digits.simps) (simp add: digit_char_is_digit)
  next
    case False
    then show ?thesis using 1 by (subst dec_digits.simps) (simp add: digit_char_is_digit)
  qed
qed

lemma dec_digits_value:
  "foldl (\<lambda>v c. v * 10 + (int (of_char c) - 48)) 0 (dec_digits m) = int m"
proof (induction m rule: dec_digits.induct)
  case (1 n)
  show ?case
  proof (cases "n < 10")
    case True
    then show ?thesis by (subst dec_digits.simps) (simp add: digit_char_value)
  next
    case False
    have "int (n div 10) * 10 + int (n mod 10) = int n"
      by (metis mult.commute of_nat_add of_nat_mult of_nat_numeral div_mult_mod_eq mult.commute)
    then show ?thesis using False 1 by (subst dec_digits.simps) (simp add: digit_char_value)
  qed
qed

lemma dec_digits_length: "0 < k \<Longrightarrow> m < 10 ^ k \<Longrightarrow> length (dec_digits m) \<le> k"
proof (induction m arbitrary: k rule: dec_digits.induct)
  case (1 n)
  show ?case
  proof (cases "n < 10")
    case True
    then show ?thesis using "1.prems" by (subst dec_digits.simps) simp
  next
    case False
    obtain j where k: "k = Suc j" using "1.prems"(1) by (cases k) auto
    have j: "0 < j" using False "1.prems"(2) k by (cases j) auto
    have "n div 10 < 10 ^ j" using "1.prems"(2) k by (simp add: less_mult_imp_div_less mult.commute)
    from "1.IH" [OF False j this] show ?thesis using False k by (subst dec_digits.simps) simp
  qed
qed

lemma dec_digits_nonempty: "dec_digits m \<noteq> []"
  by (subst dec_digits.simps) simp

lemma fold_leading_zeros:
  "foldl (\<lambda>v c. v * 10 + (int (of_char c) - 48)) 0 (replicate k CHR ''0'') = 0"
  by (induction k) simp_all

text \<open>A value below \<open>10 ^ k\<close> prints as exactly \<open>k\<close> digits that read back as the value.\<close>

lemma printf_0d_fixed:
  assumes "0 \<le> v" and "v < 10 ^ k" and "0 < k"
  shows "length (printf_0d (int k) v) = k"
    and "list_all wid_is_digit (printf_0d (int k) v)"
    and "foldl (\<lambda>v c. v * 10 + (int (of_char c) - 48)) 0 (printf_0d (int k) v) = v"
proof -
  have "nat v < 10 ^ k" using assms(1,2) by (simp add: nat_less_iff)
  then have len: "length (dec_digits (nat v)) \<le> k" using assms(3) by (intro dec_digits_length)
  have p: "printf_0d (int k) v
             = replicate (k - length (dec_digits (nat v))) CHR ''0'' @ dec_digits (nat v)"
    using assms(1) by (simp add: printf_0d_def)
  show "length (printf_0d (int k) v) = k" using len by (simp add: p)
  have z: "wid_is_digit CHR ''0''" by (simp add: wid_is_digit_def less_eq_char_def)
  show "list_all wid_is_digit (printf_0d (int k) v)"
    using z dec_digits_are_digits [of "nat v"] by (auto simp: p list_all_iff)
  show "foldl (\<lambda>v c. v * 10 + (int (of_char c) - 48)) 0 (printf_0d (int k) v) = v"
    using assms(1) by (simp add: p fold_leading_zeros dec_digits_value)
qed

text \<open>Reading a field that was printed with \<^verbatim>\<open>printf\<close>.\<close>

lemma parse_printed_field:
  assumes "0 \<le> v" and "v < 10 ^ k" and "0 < k"
  shows "wid_parse_digits_i64 (printf_0d (int k) v @ rest) (int k) = v"
proof -
  note F = printf_0d_fixed [OF assms]
  have "wid_parse_digits_loop (printf_0d (int k) v @ rest) k 0
      = foldl (\<lambda>v c. v * 10 + (int (of_char c) - 48)) 0 (printf_0d (int k) v)"
    using F(1,2) by (rule wid_parse_digits_loop_fold)
  then show ?thesis using F(3) by (simp add: wid_parse_digits_i64_def)
qed

section \<open>The calendar fields of gmtime\<close>

lemma gm_year_of_range:
  "gm_year_of y d = (y', d') \<Longrightarrow> 0 \<le> d' \<and> d' < gm_days_in_year y'"
proof (induction y d rule: gm_year_of.induct)
  case (1 y d)
  show ?case
  proof (cases "d < 0")
    case True
    then have "gm_year_of (y - 1) (d + gm_days_in_year (y - 1)) = (y', d')"
      using "1.prems" by (subst (asm) gm_year_of.simps) simp
    with "1.IH"(1) [OF True] show ?thesis .
  next
    case False
    show ?thesis
    proof (cases "gm_days_in_year y \<le> d")
      case True
      then have "gm_year_of (y + 1) (d - gm_days_in_year y) = (y', d')"
        using "1.prems" False by (subst (asm) gm_year_of.simps) simp
      with "1.IH"(2) [OF False True] show ?thesis .
    next
      case nle: False
      then have "y' = y" "d' = d"
        using "1.prems" False by (subst (asm) gm_year_of.simps, simp)+
      then show ?thesis using False nle by simp
    qed
  qed
qed

lemma gm_leap_iff: "gm_leap y = wid_is_leap_year y"
  by (auto simp: gm_leap_def wid_is_leap_year_def)

lemma gm_month_lengths_nth:
  "\<forall>k<12. gm_month_lengths y ! k
      = (if k = 1 \<and> wid_is_leap_year y then 29 else days_in_month ! k)"
  by (simp add: eval_nat_numeral All_less_Suc gm_month_lengths_def days_in_month_def gm_leap_iff)

lemma days_in_month_le_31: "\<forall>k<12. days_in_month ! k \<le> 31"
  by (simp add: eval_nat_numeral All_less_Suc days_in_month_def)

lemma gm_month_of_range:
  "0 \<le> d \<Longrightarrow> d < sum_list ls \<Longrightarrow> \<forall>l\<in>set ls. 0 < l \<Longrightarrow> gm_month_of ls m d = (m', d')
     \<Longrightarrow> m \<le> m' \<and> m' < m + int (length ls) \<and> 0 \<le> d' \<and> d' < ls ! nat (m' - m)"
proof (induction ls arbitrary: m d)
  case Nil
  then show ?case by simp
next
  case (Cons l ls)
  show ?case
  proof (cases "d < l")
    case True
    then show ?thesis using Cons.prems by simp
  next
    case False
    then have rest: "gm_month_of ls (m + 1) (d - l) = (m', d')" using Cons.prems(4) by simp
    have "0 \<le> d - l" "d - l < sum_list ls" "\<forall>l\<in>set ls. 0 < l"
      using False Cons.prems by simp_all
    from Cons.IH [OF this rest]
    have r: "m + 1 \<le> m'" "m' < m + 1 + int (length ls)" "0 \<le> d'" "d' < ls ! nat (m' - (m + 1))"
      by simp_all
    have "nat (m' - m) = Suc (nat (m' - (m + 1)))" using r(1) by simp
    then show ?thesis using r by simp
  qed
qed

text \<open>The fields \<^verbatim>\<open>gmtime_r\<close> returns are a valid calendar date and time of day.\<close>

lemma gmtime_r_fields:
  assumes "gmtime_r t = Some r"
  shows "0 \<le> tm_mon r \<and> tm_mon r \<le> 11 \<and> 1 \<le> tm_mday r
      \<and> tm_mday r \<le> (if tm_mon r = 1 \<and> wid_is_leap_year (tm_year r + 1900) then 29
                        else days_in_month ! nat (tm_mon r))
      \<and> 0 \<le> tm_hour r \<and> tm_hour r \<le> 23 \<and> 0 \<le> tm_min r \<and> tm_min r \<le> 59
      \<and> 0 \<le> tm_sec r \<and> tm_sec r \<le> 59"
proof -
  obtain y yday where yd: "gm_year_of 1970 (t div 86400) = (y, yday)"
    by (cases "gm_year_of 1970 (t div 86400)")
  obtain m mday where md: "gm_month_of (gm_month_lengths y) 0 yday = (m, mday)"
    by (cases "gm_month_of (gm_month_lengths y) 0 yday")
  have r: "r = \<lparr> tm_sec = (t mod 86400) mod 60, tm_min = ((t mod 86400) div 60) mod 60,
                  tm_hour = (t mod 86400) div 3600, tm_mday = mday + 1, tm_mon = m,
                  tm_year = y - 1900 \<rparr>"
    using assms yd md by (simp add: gmtime_r_def Let_def split: if_splits)
  from gm_year_of_range [OF yd] have yr: "0 \<le> yday" "yday < gm_days_in_year y" by simp_all
  have sum: "sum_list (gm_month_lengths y) = gm_days_in_year y"
    by (simp add: gm_month_lengths_def gm_days_in_year_def)
  have pos: "\<forall>l\<in>set (gm_month_lengths y). 0 < l" by (simp add: gm_month_lengths_def)
  have len: "length (gm_month_lengths y) = 12" by (simp add: gm_month_lengths_def)
  have lt: "yday < sum_list (gm_month_lengths y)" using yr(2) sum by simp
  from gm_month_of_range [OF yr(1) lt pos md] len
  have mr: "0 \<le> m" "m < 12" "0 \<le> mday" "mday < gm_month_lengths y ! nat m" by simp_all
  have k: "nat m < 12" using mr by simp
  have dim: "gm_month_lengths y ! nat m
               = (if nat m = 1 \<and> wid_is_leap_year y then 29 else days_in_month ! nat m)"
    using k gm_month_lengths_nth by blast
  have m1: "(nat m = 1) = (m = 1)" using mr(1) by auto
  have t0: "0 \<le> t mod 86400" and t1: "t mod 86400 < 86400" by simp_all
  have h0: "0 \<le> (t mod 86400) div 3600" using t0 by simp
  have h1: "(t mod 86400) div 3600 \<le> 23" using t1 by simp
  have day: "mday + 1 \<le> (if m = 1 \<and> wid_is_leap_year y then 29 else days_in_month ! nat m)"
    using mr(4) dim m1 by simp
  have m59: "x mod 60 \<le> 59" for x :: int using pos_mod_bound [of 60 x] by linarith
  show ?thesis using mr(1,2,3) day h0 h1 m59 by (auto simp: r)
qed

section \<open>Formatted ticks are timestamps\<close>

lemma dec_digits_length_ge: "10 ^ k \<le> m \<Longrightarrow> k < length (dec_digits m)"
proof (induction m arbitrary: k rule: dec_digits.induct)
  case (1 n)
  show ?case
  proof (cases k)
    case 0
    then show ?thesis using dec_digits_nonempty [of n] by (cases "dec_digits n") simp_all
  next
    case (Suc j)
    have "(1::nat) \<le> 10 ^ j" by simp
    then have "(10::nat) \<le> 10 * 10 ^ j" by linarith
    moreover have "10 * 10 ^ j \<le> n" using "1.prems" Suc by simp
    ultimately have big: "\<not> n < 10" by linarith
    have "10 ^ j \<le> n div 10" using "1.prems" Suc by (simp add: less_eq_div_iff_mult_less_eq mult.commute)
    from "1.IH" [OF big this] show ?thesis using big Suc by (subst dec_digits.simps) simp
  qed
qed

lemma printf_year: "1000 \<le> y \<Longrightarrow> y \<le> 9999 \<Longrightarrow> printf_0d 0 y = printf_0d 4 y"
proof -
  assume y: "1000 \<le> y" "y \<le> 9999"
  have "10 ^ 3 \<le> nat y" using y by simp
  then have "3 < length (dec_digits (nat y))" by (rule dec_digits_length_ge)
  then show ?thesis using y by (simp add: printf_0d_def)
qed

lemma digits_at:
  "list_all wid_is_digit ds \<Longrightarrow> length pre = a \<Longrightarrow> a \<le> i \<Longrightarrow> i < a + length ds
     \<Longrightarrow> wid_is_digit (cstr_at (pre @ ds @ post) i)"
  by (auto simp: cstr_at_def nth_append list_all_length)

lemma digits_range:
  assumes "list_all wid_is_digit ds" and "length pre = a" and "length ds = n"
  shows "list_all (\<lambda>i. wid_is_digit (cstr_at (pre @ ds @ post) i)) [a..<a + n]"
  using assms digits_at [of ds pre a _ post] by (simp add: list_all_iff)

text \<open>
  A timestamp made of printed calendar fields, followed by a dot, is what
  \<^verbatim>\<open>wid_parse_timestamp\<close> accepts, and it reads the fields back.
\<close>

lemma wid_parse_timestamp_printed:
  assumes "wid_valid_ymdhms y mo d h mi se"
    and "0 \<le> y" "y \<le> 9999" "0 \<le> d" "d \<le> 99"
    and "unit = WID_TIME_MS \<longrightarrow> 0 \<le> ms \<and> ms \<le> 999"
    and "unit \<noteq> WID_TIME_MS \<longrightarrow> ms = 0"
  shows "wid_parse_timestamp
           (printf_0d 4 y @ printf_0d 2 mo @ printf_0d 2 d @ ''T'' @ printf_0d 2 h
              @ printf_0d 2 mi @ printf_0d 2 se
              @ (if unit = WID_TIME_MS then printf_0d 3 ms else []) @ ''.'' @ rest) unit
         = Some (y, mo, d, h, mi, se, ms)"
proof -
  have r: "1 \<le> mo" "mo \<le> 12" "0 \<le> h" "h \<le> 23" "0 \<le> mi" "mi \<le> 59" "0 \<le> se" "se \<le> 59"
    using assms(1) by (auto simp: wid_valid_ymdhms_def split: if_splits)
  define Y where "Y = printf_0d 4 y"
  define Mo where "Mo = printf_0d 2 mo"
  define D where "D = printf_0d 2 d"
  define H where "H = printf_0d 2 h"
  define Mi where "Mi = printf_0d 2 mi"
  define S where "S = printf_0d 2 se"
  define X where "X = (if unit = WID_TIME_MS then printf_0d 3 ms else [])"
  have fY: "length Y = 4" "list_all wid_is_digit Y" "\<And>t. wid_parse_digits_i64 (Y @ t) 4 = y"
    using printf_0d_fixed [of y 4] parse_printed_field [of y 4] assms(2,3) by (simp_all add: Y_def)
  have fMo: "length Mo = 2" "list_all wid_is_digit Mo" "\<And>t. wid_parse_digits_i64 (Mo @ t) 2 = mo"
    using printf_0d_fixed [of mo 2] parse_printed_field [of mo 2] r by (simp_all add: Mo_def)
  have fD: "length D = 2" "list_all wid_is_digit D" "\<And>t. wid_parse_digits_i64 (D @ t) 2 = d"
    using printf_0d_fixed [of d 2] parse_printed_field [of d 2] assms(4,5) by (simp_all add: D_def)
  have fH: "length H = 2" "list_all wid_is_digit H" "\<And>t. wid_parse_digits_i64 (H @ t) 2 = h"
    using printf_0d_fixed [of h 2] parse_printed_field [of h 2] r by (simp_all add: H_def)
  have fMi: "length Mi = 2" "list_all wid_is_digit Mi" "\<And>t. wid_parse_digits_i64 (Mi @ t) 2 = mi"
    using printf_0d_fixed [of mi 2] parse_printed_field [of mi 2] r by (simp_all add: Mi_def)
  have fS: "length S = 2" "list_all wid_is_digit S" "\<And>t. wid_parse_digits_i64 (S @ t) 2 = se"
    using printf_0d_fixed [of se 2] parse_printed_field [of se 2] r by (simp_all add: S_def)
  define s where "s = Y @ Mo @ D @ ''T'' @ H @ Mi @ S @ X @ ''.'' @ rest"
  have d8: "list_all (\<lambda>i. wid_is_digit (cstr_at s i)) [0..<8]"
    using digits_range [of "Y @ Mo @ D" "[]" 0 8 "''T'' @ H @ Mi @ S @ X @ ''.'' @ rest"] fY fMo fD
    by (simp add: s_def)
  have d15: "list_all (\<lambda>i. wid_is_digit (cstr_at s i)) [9..<15]"
    using digits_range [of "H @ Mi @ S" "Y @ Mo @ D @ ''T''" 9 6 "X @ ''.'' @ rest"] fY fMo fD fH fMi fS
    by (simp add: s_def)
  have T: "cstr_at s 8 = CHR ''T''"
    using fY fMo fD by (simp add: s_def cstr_at_def nth_append)
  have p0: "wid_parse_digits_i64 (drop 0 s) 4 = y" using fY(3) by (simp add: s_def)
  have p4: "wid_parse_digits_i64 (drop 4 s) 2 = mo" using fY(1) fMo(3) by (simp add: s_def)
  have p6: "wid_parse_digits_i64 (drop 6 s) 2 = d" using fY(1) fMo(1) fD(3) by (simp add: s_def)
  have p9: "wid_parse_digits_i64 (drop 9 s) 2 = h"
    using fY(1) fMo(1) fD(1) fH(3) by (simp add: s_def)
  have p11: "wid_parse_digits_i64 (drop 11 s) 2 = mi"
    using fY(1) fMo(1) fD(1) fH(1) fMi(3) by (simp add: s_def)
  have p13: "wid_parse_digits_i64 (drop 13 s) 2 = se"
    using fY(1) fMo(1) fD(1) fH(1) fMi(1) fS(3) by (simp add: s_def)
  have goal: "wid_parse_timestamp s unit = Some (y, mo, d, h, mi, se, ms)"
  proof (cases "unit = WID_TIME_MS")
    case True
    then have ms: "0 \<le> ms" "ms \<le> 999" using assms(6) by simp_all
    have fX: "length X = 3" "list_all wid_is_digit X" "\<And>t. wid_parse_digits_i64 (X @ t) 3 = ms"
      using printf_0d_fixed [of ms 3] parse_printed_field [of ms 3] ms True
      by (simp_all add: X_def)
    have d18: "list_all (\<lambda>i. wid_is_digit (cstr_at s i)) [15..<18]"
      using digits_range [of X "Y @ Mo @ D @ ''T'' @ H @ Mi @ S" 15 3 "''.'' @ rest"]
        fY fMo fD fH fMi fS fX
      by (simp add: s_def)
    have p15: "wid_parse_digits_i64 (drop 15 s) 3 = ms"
      using fY(1) fMo(1) fD(1) fH(1) fMi(1) fS(1) fX(3) by (simp add: s_def)
    have dot: "cstr_at s 18 = CHR ''.''"
      using fY(1) fMo(1) fD(1) fH(1) fMi(1) fS(1) fX(1) by (simp add: s_def cstr_at_def nth_append)
    show ?thesis
      unfolding wid_parse_timestamp_def
      using True d8 d15 T p0 p4 p6 p9 p11 p13 d18 p15 dot ms assms(1)
      by (simp add: wid_timestamp_len_def Let_def del: upt_rec_numeral)
  next
    case False
    then have X: "X = []" "ms = 0" using assms(7) by (simp_all add: X_def)
    have dot: "cstr_at s 15 = CHR ''.''"
      using fY(1) fMo(1) fD(1) fH(1) fMi(1) fS(1) X by (simp add: s_def cstr_at_def nth_append)
    show ?thesis
      unfolding wid_parse_timestamp_def
      using False d8 d15 T p0 p4 p6 p9 p11 p13 dot X assms(1)
      by (simp add: wid_timestamp_len_def Let_def del: upt_rec_numeral)
  qed
  then show ?thesis
    unfolding s_def Y_def Mo_def D_def H_def Mi_def S_def X_def .
qed

lemma c_div_mod_nonneg:
  "0 \<le> a \<Longrightarrow> c_div a 1000 = a div 1000 \<and> c_mod a 1000 = a mod 1000"
proof -
  assume a: "0 \<le> a"
  have d: "c_div a 1000 = a div 1000"
  proof (cases "a = 0")
    case True
    then show ?thesis by (simp add: c_div_def)
  next
    case False
    then have "sgn a = 1" using a by simp
    then show ?thesis using a by (simp add: c_div_def)
  qed
  have "a - 1000 * (a div 1000) = a mod 1000" by (simp add: minus_mult_div_eq_mod)
  then show ?thesis using d by (simp add: c_mod_def)
qed

lemma wid_fmt_tick_valid:
  assumes "0 \<le> tick" and "formats_four_digit_year unit tick"
  shows "\<exists>ts. wid_fmt_tick unit tick = Inr ts \<and> length ts = nat (wid_timestamp_len unit)
           \<and> (\<forall>rest. wid_parse_timestamp (ts @ ''.'' @ rest) unit \<noteq> None)"
proof -
  define sec where "sec = (if unit = WID_TIME_MS then c_div tick 1000 else tick)"
  from assms(2) obtain r where g: "gmtime_r sec = Some r"
    and yr: "1000 \<le> tm_year r + 1900" "tm_year r + 1900 \<le> 9999"
    by (auto simp: formats_four_digit_year_def sec_def split: option.splits)
  note F = gmtime_r_fields [OF g]
  define y where "y = tm_year r + 1900"
  define mo where "mo = tm_mon r + 1"
  define ms where "ms = (if unit = WID_TIME_MS then tick mod 1000 else 0)"
  have k: "nat (tm_mon r) < 12" using F by linarith
  have dim31: "days_in_month ! nat (tm_mon r) \<le> 31" using k days_in_month_le_31 by blast
  have d99: "0 \<le> tm_mday r" "tm_mday r \<le> 99" using F dim31 by (auto split: if_splits)
  have mon: "nat (mo - 1) = nat (tm_mon r)" "(mo = 2) = (tm_mon r = 1)" by (simp_all add: mo_def)
  have valid: "wid_valid_ymdhms y mo (tm_mday r) (tm_hour r) (tm_min r) (tm_sec r)"
    using F mon by (simp add: wid_valid_ymdhms_def Let_def y_def) (simp add: mo_def)
  have r2: "0 \<le> mo" "mo < 100" "0 \<le> tm_hour r" "tm_hour r < 100" "0 \<le> tm_min r"
    "tm_min r < 100" "0 \<le> tm_sec r" "tm_sec r < 100" "0 \<le> tm_mday r" "tm_mday r < 100"
    "0 \<le> y" "y < 10000"
    using F d99 yr by (simp_all add: mo_def y_def)
  define base where "base = printf_0d 4 y @ printf_0d 2 mo @ printf_0d 2 (tm_mday r) @ ''T''
      @ printf_0d 2 (tm_hour r) @ printf_0d 2 (tm_min r) @ printf_0d 2 (tm_sec r)"
  have lens: "length (printf_0d 4 y) = 4" "length (printf_0d 2 mo) = 2"
    "length (printf_0d 2 (tm_mday r)) = 2" "length (printf_0d 2 (tm_hour r)) = 2"
    "length (printf_0d 2 (tm_min r)) = 2" "length (printf_0d 2 (tm_sec r)) = 2"
    using printf_0d_fixed(1) [of y 4] printf_0d_fixed(1) [of mo 2]
      printf_0d_fixed(1) [of "tm_mday r" 2] printf_0d_fixed(1) [of "tm_hour r" 2]
      printf_0d_fixed(1) [of "tm_min r" 2] printf_0d_fixed(1) [of "tm_sec r" 2] r2
    by simp_all
  have lbase: "length base = 15" using lens by (simp add: base_def)
  have sf: "c_strftime 20 r = Inr base"
    using lbase printf_year [OF yr] unfolding base_def y_def mo_def
    by (simp add: c_strftime_def Let_def)
  have msr: "0 \<le> tick mod 1000" "tick mod 1000 \<le> 999"
    using pos_mod_bound [of 1000 tick] by simp_all
  have lms: "length (printf_0d 3 (tick mod 1000)) = 3"
    using printf_0d_fixed(1) [of "tick mod 1000" 3] msr by simp
  define ts where "ts = base @ (if unit = WID_TIME_MS then printf_0d 3 ms else [])"
  have fmt: "wid_fmt_tick unit tick = Inr ts"
    using g sf lbase lms c_div_mod_nonneg [OF assms(1)] msr
    by (auto simp: wid_fmt_tick_def Let_def sec_def c_snprintf_def ts_def ms_def)
  have lts: "length ts = nat (wid_timestamp_len unit)"
    using lbase lms by (simp add: ts_def ms_def wid_timestamp_len_def)
  have "wid_parse_timestamp (ts @ ''.'' @ rest) unit
      = Some (y, mo, tm_mday r, tm_hour r, tm_min r, tm_sec r, ms)" for rest
    using wid_parse_timestamp_printed [of y mo "tm_mday r" "tm_hour r" "tm_min r" "tm_sec r"
        unit ms rest] valid r2 d99 msr
    by (simp add: ts_def base_def ms_def)
  then show ?thesis using fmt lts by auto
qed

section \<open>Emitted identifiers are valid\<close>

lemma hex_digit_is_lower_hex: "\<forall>k<16. wid_is_lower_hex (hex_digits ! k)"
  by (simp add: eval_nat_numeral All_less_Suc hex_digits_def wid_is_lower_hex_def
      less_eq_char_def)

lemma low_nibble_lt_16: "unat (b AND (0x0f :: 8 word)) < 16"
proof -
  have "unat (b AND 0x0f) \<le> unat (0x0f :: 8 word)"
    by (rule word_and_le1 [THEN word_le_nat_alt [THEN iffD1]])
  then show ?thesis by simp
qed

lemma wid_random_hex_valid:
  assumes "wid_random_hex rnd len = Inr pad" and "0 \<le> len"
  shows "int (length pad) = len" and "list_all wid_is_lower_hex pad" and "len \<le> 33"
proof -
  from assms(1) have pad: "pad = map (\<lambda>i. hex_digits ! unat (rnd i AND 0x0f)) [0..<nat len]"
    and le: "len \<le> 33"
    by (auto simp: wid_random_hex_def WID_MAX_Z_def split: if_splits)
  show "int (length pad) = len" using assms(2) by (simp add: pad)
  show "list_all wid_is_lower_hex pad"
    using hex_digit_is_lower_hex low_nibble_lt_16 by (simp add: pad list_all_iff)
  show "len \<le> 33" by (rule le)
qed

lemma printf_counter:
  assumes "1 \<le> W" and "W \<le> 18" and "0 \<le> v" and "v \<le> 10 ^ nat W - 1"
  shows "length (c_snprintf 64 (printf_0d W v)) = nat W"
    and "list_all wid_is_digit (c_snprintf 64 (printf_0d W v))"
proof -
  have W: "int (nat W) = W" "0 < nat W" using assms(1) by simp_all
  have v: "v < 10 ^ nat W" using assms(4) by simp
  note F = printf_0d_fixed [OF assms(3) v W(2)]
  have "c_snprintf 64 (printf_0d W v) = printf_0d W v"
    using F(1) W(1) assms(2) by (simp add: c_snprintf_def)
  then show "length (c_snprintf 64 (printf_0d W v)) = nat W"
    and "list_all wid_is_digit (c_snprintf 64 (printf_0d W v))"
    using F W(1) by simp_all
qed

text \<open>
  What \<^verbatim>\<open>wid_validate_ex\<close> needs of a string built as timestamp, dot, counter,
  \<open>Z\<close> and suffix.
\<close>

lemma wid_validate_ex_built:
  assumes "1 \<le> W" and "W \<le> 18" and "0 \<le> Z" and "Z \<le> 64"
    and "length ts = nat (wid_timestamp_len unit)"
    and "\<forall>rest. wid_parse_timestamp (ts @ ''.'' @ rest) unit \<noteq> None"
    and "length sq = nat W" and "list_all wid_is_digit sq"
    and "wid_valid_suffix suffix Z"
  shows "wid_validate_ex (ts @ ''.'' @ sq @ ''Z'' @ suffix) W Z unit"
proof -
  have tl: "wid_timestamp_len unit = 15 \<or> wid_timestamp_len unit = 18"
    by (rule wid_timestamp_len_cases)
  define a where "a = nat (wid_timestamp_len unit + 1)"
  have a: "length (ts @ ''.'') = a" using assms(5) tl by (auto simp: a_def)
  have an: "nat (wid_timestamp_len unit + 1 + W) = a + nat W"
    using tl assms(1) by (auto simp: a_def)
  have an1: "nat (wid_timestamp_len unit + 1 + W + 1) = Suc (a + nat W)"
    using tl assms(1) by (auto simp: a_def)
  let ?s = "ts @ ''.'' @ sq @ ''Z'' @ suffix"
  have len: "wid_timestamp_len unit + 1 + W + 1 \<le> int (length ?s)"
    using assms(1,5,7) tl by auto
  have dig: "list_all (\<lambda>i. wid_is_digit (cstr_at ?s i)) [a..<a + nat W]"
    using digits_range [OF assms(8) a assms(7), of "''Z'' @ suffix"] by simp
  have z: "cstr_at ?s (a + nat W) = CHR ''Z''"
    using a assms(7) by (simp add: cstr_at_def nth_append)
  have pre: "length (ts @ ''.'' @ sq @ ''Z'') = Suc (a + nat W)" using a assms(7) by simp
  have "?s = (ts @ ''.'' @ sq @ ''Z'') @ suffix" by simp
  then have suf: "drop (Suc (a + nat W)) ?s = suffix"
    using pre by (metis append_eq_conv_conj)
  have ts: "wid_parse_timestamp ?s unit \<noteq> None" using assms(6) by simp
  show ?thesis
    unfolding wid_validate_ex_def Let_def an an1 a_def [symmetric]
    using assms(1-4,9) len dig z suf ts
    by (simp add: WID_MAX_W_def WID_MAX_Z_def)
qed

lemma wid_gen_next_emit:
  "wid_gen_next now_tick rnd out_len gen = Inr (gen', out)
     \<Longrightarrow> wid_gen_emit rnd out_len gen' = Inr out"
  by (auto simp: wid_gen_next_def split: sum.splits)

lemma hlc_wid_gen_next_emit:
  "hlc_wid_gen_next now rnd out_len gen = Inr (gen', out)
     \<Longrightarrow> hlc_wid_gen_emit rnd out_len gen' = Inr out"
  by (auto simp: hlc_wid_gen_next_def split: sum.splits)

text \<open>
  The WID generator: with a padding width that fits \<^verbatim>\<open>wid_random_hex\<close> (the call
  succeeded), an output buffer of at least \<^verbatim>\<open>WID_MAX_LEN\<close> bytes and a tick that
  formats to a four-digit year, the emitted string is a valid WID for the generator's
  \<open>W\<close>, \<open>Z\<close> and unit.
\<close>

lemma wid_gen_next_emits_valid:
  assumes reach: "wid_reachable gen"
    and nxt: "wid_gen_next now_tick rnd out_len gen = Inr (gen', out)"
    and buf: "WID_MAX_LEN \<le> out_len"
    and yr: "formats_four_digit_year (gen_time_unit gen') (last_tick gen')"
  shows "wid_validate_ex out (gen_W gen') (gen_Z gen') (gen_time_unit gen')"
proof -
  have inv: "wid_gen_inv gen" using reach by (rule wid_reachable_inv)
  have step: "wid_gen_step now_tick gen = Inr gen'" using nxt by (rule wid_gen_next_step)
  have inv': "wid_gen_inv gen'" using step inv by (rule wid_gen_step_inv)
  have sq0: "0 \<le> last_seq gen'"
    using wid_gen_step_cases [OF step inv] inv by (auto simp: wid_gen_inv_def)
  have I: "1 \<le> gen_W gen'" "gen_W gen' \<le> 18" "0 \<le> gen_Z gen'" "gen_Z gen' \<le> 64"
    "last_seq gen' \<le> 10 ^ nat (gen_W gen') - 1" "0 \<le> last_tick gen'"
    using inv' by (simp_all add: wid_gen_inv_def)
  from wid_fmt_tick_valid [OF I(6) yr] obtain ts where
    ts: "wid_fmt_tick (gen_time_unit gen') (last_tick gen') = Inr ts"
      "length ts = nat (wid_timestamp_len (gen_time_unit gen'))"
      "\<forall>rest. wid_parse_timestamp (ts @ ''.'' @ rest) (gen_time_unit gen') \<noteq> None"
    by auto
  define sq where "sq = c_snprintf 64 (printf_0d (gen_W gen') (last_seq gen'))"
  note C = printf_counter [OF I(1,2) sq0 I(5), folded sq_def]
  have lts: "length ts \<le> 18" using ts(2) wid_timestamp_len_cases [of "gen_time_unit gen'"] by auto
  have lsq: "length sq \<le> 18" using C(1) I(2) by simp
  have emit: "wid_gen_emit rnd out_len gen' = Inr out" using nxt by (rule wid_gen_next_emit)
  show ?thesis
  proof (cases "0 < gen_Z gen'")
    case True
    then obtain pad where pad: "wid_random_hex rnd (gen_Z gen') = Inr pad"
      and out: "out = c_snprintf out_len (ts @ ''.'' @ sq @ ''Z-'' @ pad)"
      using emit ts(1) by (auto simp: wid_gen_emit_def Let_def sq_def split: sum.splits)
    note P = wid_random_hex_valid [OF pad I(3)]
    have "length pad \<le> 33" using P(1,3) by simp
    then have "length (ts @ ''.'' @ sq @ ''Z-'' @ pad) < out_len - 1 + 1"
      using lts lsq buf by (simp add: WID_MAX_LEN_def)
    then have out': "out = ts @ ''.'' @ sq @ ''Z'' @ (CHR ''-'' # pad)"
      using out by (simp add: c_snprintf_def)
    have suf: "wid_valid_suffix (CHR ''-'' # pad) (gen_Z gen')"
      using True P by (simp add: wid_valid_suffix_def)
    show ?thesis unfolding out'
      using I(1-4) ts(2,3) C suf by (rule wid_validate_ex_built)
  next
    case False
    then have out: "out = c_snprintf out_len (ts @ ''.'' @ sq @ ''Z'')"
      using emit ts(1) by (auto simp: wid_gen_emit_def Let_def sq_def split: sum.splits)
    have "length (ts @ ''.'' @ sq @ ''Z'') < out_len - 1 + 1"
      using lts lsq buf by (simp add: WID_MAX_LEN_def)
    then have out': "out = ts @ ''.'' @ sq @ ''Z'' @ []"
      using out by (simp add: c_snprintf_def)
    have suf: "wid_valid_suffix [] (gen_Z gen')" by (simp add: wid_valid_suffix_def)
    show ?thesis unfolding out'
      using I(1-4) ts(2,3) C suf by (rule wid_validate_ex_built)
  qed
qed

lemma node_char_not_dash: "wid_is_node_char c \<Longrightarrow> c \<noteq> CHR ''-''"
  by (auto simp: wid_is_node_char_def wid_is_alnum_def wid_is_digit_def wid_is_alpha_def
      less_eq_char_def)

lemma hlc_node_scan_node:
  "list_all wid_is_node_char nd \<Longrightarrow> hlc_node_scan nd k = NoDash"
  "list_all wid_is_node_char nd \<Longrightarrow> hlc_node_scan (nd @ CHR ''-'' # t) k = DashAt (k + length nd)"
  by (induction nd arbitrary: k) (auto dest: node_char_not_dash)

lemma hlc_wid_validate_ex_built:
  assumes "1 \<le> W" and "W \<le> 18" and "0 \<le> Z" and "Z \<le> 64"
    and "length ts = nat (wid_timestamp_len unit)"
    and "\<forall>rest. wid_parse_timestamp (ts @ ''.'' @ rest) unit \<noteq> None"
    and "length sq = nat W" and "list_all wid_is_digit sq"
    and "wid_valid_node nd"
    and "suffix = [] \<or> (\<exists>pad. suffix = CHR ''-'' # pad \<and> wid_valid_suffix suffix Z)"
  shows "hlc_wid_validate_ex (ts @ ''.'' @ sq @ ''Z-'' @ nd @ suffix) W Z unit"
proof -
  have tl: "wid_timestamp_len unit = 15 \<or> wid_timestamp_len unit = 18"
    by (rule wid_timestamp_len_cases)
  define a where "a = nat (wid_timestamp_len unit + 1)"
  have a: "length (ts @ ''.'') = a" using assms(5) tl by (auto simp: a_def)
  have an: "nat (wid_timestamp_len unit + 1 + W) = a + nat W"
    using tl assms(1) by (auto simp: a_def)
  have an1: "nat (wid_timestamp_len unit + 1 + W + 1) = Suc (a + nat W)"
    using tl assms(1) by (auto simp: a_def)
  have an2: "nat (wid_timestamp_len unit + 1 + W + 1 + 1) = Suc (Suc (a + nat W))"
    using tl assms(1) by (auto simp: a_def)
  have nd: "nd \<noteq> []" "list_all wid_is_node_char nd"
    using assms(9) by (auto simp: wid_valid_node_def split: if_splits)
  let ?s = "ts @ ''.'' @ sq @ ''Z-'' @ nd @ suffix"
  have len: "wid_timestamp_len unit + 1 + W + 1 + 2 \<le> int (length ?s)"
    using assms(1,5,7) tl nd(1) by (cases nd) auto
  have dig: "list_all (\<lambda>i. wid_is_digit (cstr_at ?s i)) [a..<a + nat W]"
    using digits_range [OF assms(8) a assms(7), of "''Z-'' @ nd @ suffix"] by simp
  have z: "cstr_at ?s (a + nat W) = CHR ''Z''"
    using a assms(7) by (simp add: cstr_at_def nth_append)
  have dash: "cstr_at ?s (Suc (a + nat W)) = CHR ''-''"
    using a assms(7) by (simp add: cstr_at_def nth_append)
  have pre: "length (ts @ ''.'' @ sq @ ''Z-'') = Suc (Suc (a + nat W))" using a assms(7) by simp
  have "?s = (ts @ ''.'' @ sq @ ''Z-'') @ nd @ suffix" by simp
  then have ns: "drop (Suc (Suc (a + nat W))) ?s = nd @ suffix"
    using pre by (metis append_eq_conv_conj)
  have ts: "wid_parse_timestamp ?s unit \<noteq> None" using assms(6) by simp
  have scan: "(case hlc_node_scan (nd @ suffix) 0 of
                 BadChar \<Rightarrow> False
               | NoDash \<Rightarrow> if int (length (nd @ suffix)) \<le> 0 then False else True
               | DashAt k \<Rightarrow> if int k \<le> 0 then False
                             else wid_valid_suffix (drop k (nd @ suffix)) Z)"
    using assms(10)
  proof
    assume "suffix = []"
    then show ?thesis using hlc_node_scan_node(1) [OF nd(2), of 0] nd(1) by simp
  next
    assume "\<exists>pad. suffix = CHR ''-'' # pad \<and> wid_valid_suffix suffix Z"
    then obtain pad where p: "suffix = CHR ''-'' # pad" "wid_valid_suffix suffix Z" by auto
    show ?thesis
      using hlc_node_scan_node(2) [OF nd(2), of pad 0] nd(1) p by simp
  qed
  show ?thesis
    unfolding hlc_wid_validate_ex_def Let_def an an1 an2 a_def [symmetric] ns
    using assms(1-4) len dig z dash ts scan
    by (simp add: WID_MAX_W_def WID_MAX_Z_def)
qed

text \<open>The same for the HLC generator.\<close>

lemma hlc_wid_gen_next_emits_valid:
  assumes reach: "hlc_reachable gen"
    and nxt: "hlc_wid_gen_next now rnd out_len gen = Inr (gen', out)"
    and buf: "WID_MAX_LEN \<le> out_len"
    and yr: "formats_four_digit_year (hlc_time_unit gen') (pt gen')"
  shows "hlc_wid_validate_ex out (hlc_W gen') (hlc_Z gen') (hlc_time_unit gen')"
proof -
  have "hlc_reachable gen'" using reach nxt by (rule hlc_next)
  then have inv': "hlc_gen_inv gen'" by (rule hlc_reachable_inv)
  have I: "1 \<le> hlc_W gen'" "hlc_W gen' \<le> 18" "0 \<le> hlc_Z gen'" "hlc_Z gen' \<le> 64"
    "0 \<le> lc gen'" "lc gen' \<le> 10 ^ nat (hlc_W gen') - 1" "0 \<le> pt gen'"
    "wid_valid_node (hlc_node gen')"
    using inv' by (simp_all add: hlc_gen_inv_def)
  from wid_fmt_tick_valid [OF I(7) yr] obtain ts where
    ts: "wid_fmt_tick (hlc_time_unit gen') (pt gen') = Inr ts"
      "length ts = nat (wid_timestamp_len (hlc_time_unit gen'))"
      "\<forall>rest. wid_parse_timestamp (ts @ ''.'' @ rest) (hlc_time_unit gen') \<noteq> None"
    by auto
  define sq where "sq = c_snprintf 64 (printf_0d (hlc_W gen') (lc gen'))"
  note C = printf_counter [OF I(1,2,5,6), folded sq_def]
  have lts: "length ts \<le> 18" using ts(2) wid_timestamp_len_cases [of "hlc_time_unit gen'"] by auto
  have lsq: "length sq \<le> 18" using C(1) I(2) by simp
  have lnd: "length (hlc_node gen') \<le> 63"
  proof -
    have "\<And>g. hlc_reachable g \<Longrightarrow> length (hlc_node g) \<le> 63"
    proof -
      fix g assume "hlc_reachable g"
      then show "length (hlc_node g) \<le> 63"
      proof (induction rule: hlc_reachable.induct)
        case (hlc_init nd W Z unit gen)
        then show ?case by (auto simp: hlc_wid_gen_init_ex_def Let_def split: if_splits)
      next
        case (hlc_next gen now rnd out_len gen' out)
        then show ?case
          by (auto simp: hlc_wid_gen_next_def hlc_wid_gen_step_def hlc_wid_rollover_if_needed_def
              split: sum.splits if_splits)
      next
        case (hlc_observe gen now remote_pt remote_lc ok gen')
        then show ?case
          by (auto simp: hlc_wid_observe_def hlc_wid_rollover_if_needed_def Let_def
              split: sum.splits if_splits)
      qed
    qed
    then show ?thesis using \<open>hlc_reachable gen'\<close> by blast
  qed
  have emit: "hlc_wid_gen_emit rnd out_len gen' = Inr out" using nxt by (rule hlc_wid_gen_next_emit)
  show ?thesis
  proof (cases "0 < hlc_Z gen'")
    case True
    then obtain pad where pad: "wid_random_hex rnd (hlc_Z gen') = Inr pad"
      and out: "out = c_snprintf out_len (ts @ ''.'' @ sq @ ''Z-'' @ hlc_node gen' @ ''-'' @ pad)"
      using emit ts(1) by (auto simp: hlc_wid_gen_emit_def Let_def sq_def split: sum.splits)
    note P = wid_random_hex_valid [OF pad I(3)]
    have "length pad \<le> 33" using P(1,3) by simp
    then have "length (ts @ ''.'' @ sq @ ''Z-'' @ hlc_node gen' @ ''-'' @ pad) < out_len - 1 + 1"
      using lts lsq lnd buf by (simp add: WID_MAX_LEN_def)
    then have out': "out = ts @ ''.'' @ sq @ ''Z-'' @ hlc_node gen' @ (CHR ''-'' # pad)"
      using out by (simp add: c_snprintf_def)
    have suf: "wid_valid_suffix (CHR ''-'' # pad) (hlc_Z gen')"
      using True P by (simp add: wid_valid_suffix_def)
    then have "CHR ''-'' # pad = [] \<or> (\<exists>p. CHR ''-'' # pad = CHR ''-'' # p
        \<and> wid_valid_suffix (CHR ''-'' # pad) (hlc_Z gen'))" by simp
    with I(1-4) ts(2,3) C I(8) show ?thesis unfolding out' by (rule hlc_wid_validate_ex_built)
  next
    case False
    then have out: "out = c_snprintf out_len (ts @ ''.'' @ sq @ ''Z-'' @ hlc_node gen')"
      using emit ts(1) by (auto simp: hlc_wid_gen_emit_def Let_def sq_def split: sum.splits)
    have "length (ts @ ''.'' @ sq @ ''Z-'' @ hlc_node gen') < out_len - 1 + 1"
      using lts lsq lnd buf by (simp add: WID_MAX_LEN_def)
    then have out': "out = ts @ ''.'' @ sq @ ''Z-'' @ hlc_node gen' @ []"
      using out by (simp add: c_snprintf_def)
    have "([]::string) = [] \<or> (\<exists>p. [] = CHR ''-'' # p \<and> wid_valid_suffix [] (hlc_Z gen'))"
      by simp
    with I(1-4) ts(2,3) C I(8) show ?thesis unfolding out' by (rule hlc_wid_validate_ex_built)
  qed
qed

section \<open>The order of printed numbers\<close>

text \<open>
  Strings of digits of the same length are ordered as the numbers they read.
\<close>

lemma append_less_same_length:
  fixes a b :: "char list"
  shows "length a = length b \<Longrightarrow> (a @ x < b @ y) = (a < b \<or> (a = b \<and> x < y))"
  by (induction a b rule: list_induct2) auto

lemma foldl_digits_acc:
  "foldl (\<lambda>v c. v * 10 + (int (of_char c) - 48)) a xs
     = a * 10 ^ length xs + foldl (\<lambda>v c. v * 10 + (int (of_char c) - 48)) 0 xs"
proof (induction xs arbitrary: a)
  case Nil
  then show ?case by simp
next
  case (Cons x xs)
  show ?case
    using Cons.IH [of "a * 10 + (int (of_char x) - 48)"] Cons.IH [of "int (of_char x) - 48"]
    by (simp add: algebra_simps)
qed

lemma fold_digits_less:
  "list_all wid_is_digit ds
     \<Longrightarrow> foldl (\<lambda>v c. v * 10 + (int (of_char c) - 48)) 0 ds < 10 ^ length ds"
proof (induction ds)
  case Nil
  then show ?case by simp
next
  case (Cons c ds)
  have d: "int (of_char c) - 48 \<le> 9" using Cons.prems digit_value(2) [of c] by simp
  have r: "foldl (\<lambda>v c. v * 10 + (int (of_char c) - 48)) 0 ds < 10 ^ length ds"
    using Cons by simp
  have m: "(int (of_char c) - 48) * 10 ^ length ds \<le> 9 * 10 ^ length ds"
    using d by (intro mult_right_mono) simp_all
  have e: "foldl (\<lambda>v c. v * 10 + (int (of_char c) - 48)) 0 (c # ds)
      = (int (of_char c) - 48) * 10 ^ length ds
        + foldl (\<lambda>v c. v * 10 + (int (of_char c) - 48)) 0 ds"
    using foldl_digits_acc [of "int (of_char c) - 48" ds] by simp
  have p: "10 ^ length (c # ds) = (10::int) * 10 ^ length ds" by simp
  show ?case using e m r p by linarith
qed

lemma digit_less_iff:
  "c < d \<longleftrightarrow> int (of_char c) - 48 < int (of_char d) - 48"
  by (simp add: less_char_def)

lemma digits_less:
  "length xs = length ys \<Longrightarrow> list_all wid_is_digit xs \<Longrightarrow> list_all wid_is_digit ys
     \<Longrightarrow> foldl (\<lambda>v c. v * 10 + (int (of_char c) - 48)) 0 xs
           < foldl (\<lambda>v c. v * 10 + (int (of_char c) - 48)) 0 ys
     \<Longrightarrow> xs < ys"
proof (induction xs ys rule: list_induct2)
  case Nil
  then show ?case by simp
next
  case (Cons x xs y ys)
  let ?f = "\<lambda>v c. v * 10 + (int (of_char c) - 48)"
  let ?n = "length xs"
  have vx: "foldl ?f 0 (x # xs) = (int (of_char x) - 48) * 10 ^ ?n + foldl ?f 0 xs"
    using foldl_digits_acc [of "int (of_char x) - 48" xs] by simp
  have vy: "foldl ?f 0 (y # ys) = (int (of_char y) - 48) * 10 ^ ?n + foldl ?f 0 ys"
    using foldl_digits_acc [of "int (of_char y) - 48" ys] Cons.hyps by simp
  have hx: "0 \<le> foldl ?f 0 xs" "foldl ?f 0 xs < 10 ^ ?n"
    using Cons.prems(1) fold_digits_nonneg [of 0 xs] fold_digits_less [of xs] by simp_all
  have hy: "0 \<le> foldl ?f 0 ys" "foldl ?f 0 ys < 10 ^ ?n"
    using Cons.prems(2) Cons.hyps fold_digits_nonneg [of 0 ys] fold_digits_less [of ys]
    by simp_all
  consider "x < y" | "x = y" | "y < x" by (metis linorder_less_linear)
  then show ?case
  proof cases
    case 1
    then show ?thesis by simp
  next
    case 2
    then have "foldl ?f 0 xs < foldl ?f 0 ys" using Cons.prems(3) vx vy by simp
    then have "xs < ys" using Cons.IH Cons.prems(1,2) by simp
    then show ?thesis using 2 by simp
  next
    case 3
    then have "int (of_char y) - 48 + 1 \<le> int (of_char x) - 48"
      by (simp add: less_char_def)
    then have "(int (of_char y) - 48 + 1) * 10 ^ ?n \<le> (int (of_char x) - 48) * 10 ^ ?n"
      by (intro mult_right_mono) simp_all
    then have "foldl ?f 0 (y # ys) < foldl ?f 0 (x # xs)"
      using vx vy hx hy by (simp add: algebra_simps)
    then show ?thesis using Cons.prems(3) by simp
  qed
qed

text \<open>Fixed-width printing keeps the order of the numbers.\<close>

lemma printf_0d_less:
  assumes "0 \<le> a" and "a < b" and "b < 10 ^ k" and "0 < k"
  shows "printf_0d (int k) a < printf_0d (int k) b"
proof -
  have a: "a < 10 ^ k" and b: "0 \<le> b" using assms by simp_all
  note A = printf_0d_fixed [OF assms(1) a assms(4)]
  note B = printf_0d_fixed [OF b assms(3,4)]
  show ?thesis
    using A B assms(2) by (intro digits_less) simp_all
qed

lemma printf_0d_append_less:
  assumes "0 \<le> a" and "a < 10 ^ k" and "0 \<le> b" and "b < 10 ^ k" and "0 < k"
    and "a < b \<or> (a = b \<and> x < y)"
  shows "printf_0d (int k) a @ x < printf_0d (int k) b @ y"
proof -
  have len: "length (printf_0d (int k) a) = length (printf_0d (int k) b)"
    using printf_0d_fixed(1) [OF assms(1,2,5)] printf_0d_fixed(1) [OF assms(3,4,5)] by simp
  show ?thesis
    using assms(6) printf_0d_less [OF assms(1) _ assms(4,5)]
    by (auto simp: append_less_same_length [OF len])
qed

lemma div_mod_lex:
  fixes a b n :: int
  assumes "0 < n" and "a < b"
  shows "a div n < b div n \<or> (a div n = b div n \<and> a mod n < b mod n)"
proof -
  have le: "a div n \<le> b div n" using assms by (intro zdiv_mono1) simp_all
  have "a = n * (a div n) + a mod n" "b = n * (b div n) + b mod n" by simp_all
  then have "a div n = b div n \<Longrightarrow> a mod n < b mod n"
    using assms(2) by (metis add_less_cancel_left)
  then show ?thesis using le by linarith
qed

section \<open>Later ticks have later calendar fields\<close>

lemma gm_year_of_ge: "0 \<le> d \<Longrightarrow> gm_year_of y d = (y', d') \<Longrightarrow> y \<le> y'"
proof (induction y d rule: gm_year_of.induct)
  case (1 y d)
  show ?case
  proof (cases "gm_days_in_year y \<le> d")
    case True
    then have "gm_year_of (y + 1) (d - gm_days_in_year y) = (y', d')"
      using "1.prems" by (subst (asm) gm_year_of.simps) simp
    moreover have "\<not> d < 0" "0 \<le> d - gm_days_in_year y" using "1.prems"(1) True by simp_all
    ultimately have "y + 1 \<le> y'" using "1.IH"(2) True by blast
    then show ?thesis by simp
  next
    case False
    then have "y' = y"
      using "1.prems" by (subst (asm) gm_year_of.simps) simp
    then show ?thesis by simp
  qed
qed

lemma gm_year_of_mono:
  "0 \<le> d1 \<Longrightarrow> d1 \<le> d2 \<Longrightarrow> gm_year_of y d1 = (y1, r1) \<Longrightarrow> gm_year_of y d2 = (y2, r2)
     \<Longrightarrow> y1 < y2 \<or> (y1 = y2 \<and> r2 - r1 = d2 - d1)"
proof (induction y d1 arbitrary: d2 rule: gm_year_of.induct)
  case (1 y d)
  have n: "\<not> d < 0" "\<not> d2 < 0" using "1.prems"(1,2) by simp_all
  show ?case
  proof (cases "gm_days_in_year y \<le> d")
    case True
    then have a: "gm_year_of (y + 1) (d - gm_days_in_year y) = (y1, r1)"
      using "1.prems"(3) n by (subst (asm) gm_year_of.simps) simp
    have True2: "gm_days_in_year y \<le> d2" using True "1.prems"(2) by simp
    then have b: "gm_year_of (y + 1) (d2 - gm_days_in_year y) = (y2, r2)"
      using "1.prems"(4) n by (subst (asm) gm_year_of.simps) simp
    have "0 \<le> d - gm_days_in_year y" "d - gm_days_in_year y \<le> d2 - gm_days_in_year y"
      using True "1.prems"(2) by simp_all
    from "1.IH"(2) [OF n(1) True this a b] show ?thesis by simp
  next
    case False
    then have a: "y1 = y" "r1 = d"
      using "1.prems"(3) n by (subst (asm) gm_year_of.simps, simp)+
    show ?thesis
    proof (cases "gm_days_in_year y \<le> d2")
      case True
      then have b: "gm_year_of (y + 1) (d2 - gm_days_in_year y) = (y2, r2)"
        using "1.prems"(4) n by (subst (asm) gm_year_of.simps) simp
      have "0 \<le> d2 - gm_days_in_year y" using True by simp
      from gm_year_of_ge [OF this b] show ?thesis using a by simp
    next
      case False
      then have "y2 = y" "r2 = d2"
        using "1.prems"(4) n by (subst (asm) gm_year_of.simps, simp)+
      then show ?thesis using a by simp
    qed
  qed
qed

lemma gm_month_of_ge: "gm_month_of ls m d = (m', d') \<Longrightarrow> m \<le> m'"
proof (induction ls arbitrary: m d)
  case Nil
  then show ?case by simp
next
  case (Cons l ls)
  show ?case
  proof (cases "d < l")
    case True
    then show ?thesis using Cons.prems by simp
  next
    case False
    then have "gm_month_of ls (m + 1) (d - l) = (m', d')" using Cons.prems by simp
    from Cons.IH [OF this] show ?thesis by simp
  qed
qed

lemma gm_month_of_mono:
  "d1 \<le> d2 \<Longrightarrow> gm_month_of ls m d1 = (m1, r1) \<Longrightarrow> gm_month_of ls m d2 = (m2, r2)
     \<Longrightarrow> m1 < m2 \<or> (m1 = m2 \<and> r2 - r1 = d2 - d1)"
proof (induction ls arbitrary: m d1 d2)
  case Nil
  then show ?case by simp
next
  case (Cons l ls)
  show ?case
  proof (cases "d1 < l")
    case True
    then have a: "m1 = m" "r1 = d1" using Cons.prems(2) by simp_all
    show ?thesis
    proof (cases "d2 < l")
      case True
      then show ?thesis using a Cons.prems(3) by simp
    next
      case False
      then have "gm_month_of ls (m + 1) (d2 - l) = (m2, r2)" using Cons.prems(3) by simp
      from gm_month_of_ge [OF this] show ?thesis using a by simp
    qed
  next
    case False
    then have a: "gm_month_of ls (m + 1) (d1 - l) = (m1, r1)" using Cons.prems(2) by simp
    have "\<not> d2 < l" using False Cons.prems(1) by simp
    then have b: "gm_month_of ls (m + 1) (d2 - l) = (m2, r2)" using Cons.prems(3) by simp
    have "d1 - l \<le> d2 - l" using Cons.prems(1) by simp
    from Cons.IH [OF this a b] show ?thesis by simp
  qed
qed

text \<open>The time of day: a later second of the day has later hour, minute, second.\<close>

lemma hms_lex:
  fixes a b :: int
  assumes "a < b"
  shows "a div 3600 < b div 3600
       \<or> (a div 3600 = b div 3600
          \<and> ((a div 60) mod 60 < (b div 60) mod 60
             \<or> ((a div 60) mod 60 = (b div 60) mod 60 \<and> a mod 60 < b mod 60)))"
proof -
  have h: "x div 3600 = (x div 60) div 60" for x :: int
    using zdiv_zmult2_eq [of 60 x 60] by simp
  from div_mod_lex [of 60 a b] assms
  consider "a div 60 < b div 60" | "a div 60 = b div 60" "a mod 60 < b mod 60" by auto
  then show ?thesis
  proof cases
    case 1
    from div_mod_lex [OF _ 1, of 60] show ?thesis by (auto simp: h)
  next
    case 2
    then show ?thesis by (simp add: h)
  qed
qed

text \<open>
  \<^verbatim>\<open>gmtime_r\<close> is monotone: of two instants from 1970 on, the later one has the
  later calendar fields, read in the order year, month, day, hour, minute, second.
\<close>

lemma gmtime_r_mono:
  assumes "0 \<le> t1" and "t1 < t2" and "gmtime_r t1 = Some a" and "gmtime_r t2 = Some b"
  shows "tm_year a < tm_year b
       \<or> (tm_year a = tm_year b
          \<and> (tm_mon a < tm_mon b
             \<or> (tm_mon a = tm_mon b
                \<and> (tm_mday a < tm_mday b
                   \<or> (tm_mday a = tm_mday b
                      \<and> (tm_hour a < tm_hour b
                         \<or> (tm_hour a = tm_hour b
                            \<and> (tm_min a < tm_min b
                               \<or> (tm_min a = tm_min b \<and> tm_sec a < tm_sec b)))))))))"
proof -
  obtain y1 yd1 where y1: "gm_year_of 1970 (t1 div 86400) = (y1, yd1)"
    by (cases "gm_year_of 1970 (t1 div 86400)")
  obtain y2 yd2 where y2: "gm_year_of 1970 (t2 div 86400) = (y2, yd2)"
    by (cases "gm_year_of 1970 (t2 div 86400)")
  obtain m1 md1 where m1: "gm_month_of (gm_month_lengths y1) 0 yd1 = (m1, md1)"
    by (cases "gm_month_of (gm_month_lengths y1) 0 yd1")
  obtain m2 md2 where m2: "gm_month_of (gm_month_lengths y2) 0 yd2 = (m2, md2)"
    by (cases "gm_month_of (gm_month_lengths y2) 0 yd2")
  have a: "a = \<lparr> tm_sec = (t1 mod 86400) mod 60, tm_min = ((t1 mod 86400) div 60) mod 60,
                  tm_hour = (t1 mod 86400) div 3600, tm_mday = md1 + 1, tm_mon = m1,
                  tm_year = y1 - 1900 \<rparr>"
    using assms(3) y1 m1 by (simp add: gmtime_r_def Let_def split: if_splits)
  have b: "b = \<lparr> tm_sec = (t2 mod 86400) mod 60, tm_min = ((t2 mod 86400) div 60) mod 60,
                  tm_hour = (t2 mod 86400) div 3600, tm_mday = md2 + 1, tm_mon = m2,
                  tm_year = y2 - 1900 \<rparr>"
    using assms(4) y2 m2 by (simp add: gmtime_r_def Let_def split: if_splits)
  have d0: "0 \<le> t1 div 86400" using assms(1) by simp
  from div_mod_lex [of 86400 t1 t2] assms(2)
  consider "t1 div 86400 < t2 div 86400"
    | "t1 div 86400 = t2 div 86400" "t1 mod 86400 < t2 mod 86400" by auto
  then show ?thesis
  proof cases
    case 1
    then have le: "t1 div 86400 \<le> t2 div 86400" by simp
    from gm_year_of_mono [OF d0 le y1 y2]
    consider "y1 < y2" | "y1 = y2" "yd1 < yd2" using 1 by auto
    then show ?thesis
    proof cases
      case 1
      then show ?thesis by (simp add: a b)
    next
      case 2
      have le2: "yd1 \<le> yd2" using 2(2) by simp
      from gm_month_of_mono [OF le2 m1 m2 [folded 2(1)]] 2(2)
      have "m1 < m2 \<or> (m1 = m2 \<and> md1 < md2)" by auto
      then show ?thesis using 2(1) by (auto simp: a b)
    qed
  next
    case 2
    have "y1 = y2" "yd1 = yd2" using y1 y2 2(1) by simp_all
    then have "m1 = m2" "md1 = md2" using m1 m2 by simp_all
    then show ?thesis using \<open>y1 = y2\<close> hms_lex [OF 2(2)] by (simp add: a b)
  qed
qed

lemma gmtime_r_year_mono:
  assumes "0 \<le> t1" and "t1 \<le> t2" and "gmtime_r t2 = Some b" and "tm_year b + 1900 \<le> 9999"
  shows "\<exists>a. gmtime_r t1 = Some a \<and> 1970 \<le> tm_year a + 1900 \<and> tm_year a \<le> tm_year b"
proof -
  obtain y1 yd1 where y1: "gm_year_of 1970 (t1 div 86400) = (y1, yd1)"
    by (cases "gm_year_of 1970 (t1 div 86400)")
  obtain y2 yd2 where y2: "gm_year_of 1970 (t2 div 86400) = (y2, yd2)"
    by (cases "gm_year_of 1970 (t2 div 86400)")
  have b: "tm_year b = y2 - 1900"
    using assms(3) y2 by (auto simp: gmtime_r_def Let_def split: if_splits prod.splits)
  have d0: "0 \<le> t1 div 86400" using assms(1) by simp
  have le: "t1 div 86400 \<le> t2 div 86400" using assms(2) by (intro zdiv_mono1) simp_all
  from gm_year_of_mono [OF d0 le y1 y2] have "y1 \<le> y2" by auto
  moreover from gm_year_of_ge [OF d0 y1] have "1970 \<le> y1" .
  ultimately show ?thesis using assms(4) b y1
    by (auto simp: gmtime_r_def Let_def INT_MIN_def INT_MAX_def split: prod.splits)
qed

section \<open>Later ticks format to later timestamps\<close>

lemma formats_four_digit_year_down:
  assumes "0 \<le> t1" and "t1 \<le> t2" and "formats_four_digit_year unit t2"
  shows "formats_four_digit_year unit t1"
proof -
  define s1 where "s1 = (if unit = WID_TIME_MS then t1 div 1000 else t1)"
  define s2 where "s2 = (if unit = WID_TIME_MS then t2 div 1000 else t2)"
  have t2: "0 \<le> t2" using assms(1,2) by simp
  have c1: "(if unit = WID_TIME_MS then c_div t1 1000 else t1) = s1"
    using c_div_mod_nonneg [OF assms(1)] by (simp add: s1_def)
  have c2: "(if unit = WID_TIME_MS then c_div t2 1000 else t2) = s2"
    using c_div_mod_nonneg [OF t2] by (simp add: s2_def)
  have s0: "0 \<le> s1" using assms(1) by (simp add: s1_def pos_imp_zdiv_nonneg_iff)
  have le: "s1 \<le> s2" using assms(2) zdiv_mono1 [of t1 t2 1000] by (simp add: s1_def s2_def)
  from assms(3) obtain b where b: "gmtime_r s2 = Some b" "tm_year b + 1900 \<le> 9999"
    unfolding formats_four_digit_year_def c2 by (auto split: option.splits)
  from gmtime_r_year_mono [OF s0 le b] obtain a where
    "gmtime_r s1 = Some a" "1970 \<le> tm_year a + 1900" "tm_year a \<le> tm_year b" by auto
  then show ?thesis using b(2) unfolding formats_four_digit_year_def c1 by simp
qed

text \<open>
  What \<^verbatim>\<open>wid_fmt_tick\<close> writes for a tick from 1970 on with a four-digit year: the
  calendar fields of \<^verbatim>\<open>gmtime_r\<close> at their fixed widths.
\<close>

lemma wid_fmt_tick_fields:
  assumes "0 \<le> tick" and "formats_four_digit_year unit tick"
  shows "\<exists>r. gmtime_r (if unit = WID_TIME_MS then tick div 1000 else tick) = Some r
           \<and> 1000 \<le> tm_year r + 1900 \<and> tm_year r + 1900 \<le> 9999
           \<and> wid_fmt_tick unit tick
               = Inr (printf_0d 4 (tm_year r + 1900) @ printf_0d 2 (tm_mon r + 1)
                      @ printf_0d 2 (tm_mday r) @ ''T'' @ printf_0d 2 (tm_hour r)
                      @ printf_0d 2 (tm_min r) @ printf_0d 2 (tm_sec r)
                      @ (if unit = WID_TIME_MS then printf_0d 3 (tick mod 1000) else []))"
proof -
  define sec where "sec = (if unit = WID_TIME_MS then tick div 1000 else tick)"
  have c: "(if unit = WID_TIME_MS then c_div tick 1000 else tick) = sec"
    using c_div_mod_nonneg [OF assms(1)] by (simp add: sec_def)
  from assms(2) obtain r where g: "gmtime_r sec = Some r"
    and yr: "1000 \<le> tm_year r + 1900" "tm_year r + 1900 \<le> 9999"
    unfolding formats_four_digit_year_def c by (auto split: option.splits)
  note F = gmtime_r_fields [OF g]
  define y where "y = tm_year r + 1900"
  define mo where "mo = tm_mon r + 1"
  have k: "nat (tm_mon r) < 12" using F by linarith
  have dim31: "days_in_month ! nat (tm_mon r) \<le> 31" using k days_in_month_le_31 by blast
  have d99: "0 \<le> tm_mday r" "tm_mday r \<le> 99" using F dim31 by (auto split: if_splits)
  have r2: "0 \<le> mo" "mo < 100" "0 \<le> tm_hour r" "tm_hour r < 100" "0 \<le> tm_min r"
    "tm_min r < 100" "0 \<le> tm_sec r" "tm_sec r < 100" "0 \<le> tm_mday r" "tm_mday r < 100"
    "0 \<le> y" "y < 10000"
    using F d99 yr by (simp_all add: mo_def y_def)
  define base where "base = printf_0d 4 y @ printf_0d 2 mo @ printf_0d 2 (tm_mday r) @ ''T''
      @ printf_0d 2 (tm_hour r) @ printf_0d 2 (tm_min r) @ printf_0d 2 (tm_sec r)"
  have lens: "length (printf_0d 4 y) = 4" "length (printf_0d 2 mo) = 2"
    "length (printf_0d 2 (tm_mday r)) = 2" "length (printf_0d 2 (tm_hour r)) = 2"
    "length (printf_0d 2 (tm_min r)) = 2" "length (printf_0d 2 (tm_sec r)) = 2"
    using printf_0d_fixed(1) [of y 4] printf_0d_fixed(1) [of mo 2]
      printf_0d_fixed(1) [of "tm_mday r" 2] printf_0d_fixed(1) [of "tm_hour r" 2]
      printf_0d_fixed(1) [of "tm_min r" 2] printf_0d_fixed(1) [of "tm_sec r" 2] r2
    by simp_all
  have lbase: "length base = 15" using lens by (simp add: base_def)
  have sf: "c_strftime 20 r = Inr base"
    using lbase printf_year [OF yr] unfolding base_def y_def mo_def
    by (simp add: c_strftime_def Let_def)
  have msr: "0 \<le> tick mod 1000" "tick mod 1000 \<le> 999"
    using pos_mod_bound [of 1000 tick] by simp_all
  have lms: "length (printf_0d 3 (tick mod 1000)) = 3"
    using printf_0d_fixed(1) [of "tick mod 1000" 3] msr by simp
  have fmt: "wid_fmt_tick unit tick
      = Inr (base @ (if unit = WID_TIME_MS then printf_0d 3 (tick mod 1000) else []))"
    using g sf lbase lms c_div_mod_nonneg [OF assms(1)] msr
    by (auto simp: wid_fmt_tick_def Let_def sec_def c_snprintf_def)
  show ?thesis
    using g yr fmt unfolding sec_def base_def y_def mo_def by auto
qed

lemma printf_0d_no_dot:
  assumes "0 \<le> v" and "v < 10 ^ k" and "0 < k"
  shows "CHR ''.'' \<notin> set (printf_0d (int k) v)"
proof -
  have "\<not> wid_is_digit CHR ''.''" by (simp add: wid_is_digit_def less_eq_char_def)
  then show ?thesis using printf_0d_fixed(2) [OF assms] by (auto simp: list_all_iff)
qed

text \<open>Such a timestamp has the width of its unit and no dot.\<close>

lemma wid_fmt_tick_shape:
  assumes "0 \<le> tick" and "formats_four_digit_year unit tick"
    and "wid_fmt_tick unit tick = Inr ts"
  shows "length ts = nat (wid_timestamp_len unit) \<and> CHR ''.'' \<notin> set ts"
proof -
  from wid_fmt_tick_fields [OF assms(1,2)] assms(3) obtain r where
    g: "gmtime_r (if unit = WID_TIME_MS then tick div 1000 else tick) = Some r"
    and yr: "1000 \<le> tm_year r + 1900" "tm_year r + 1900 \<le> 9999"
    and ts: "ts = printf_0d 4 (tm_year r + 1900) @ printf_0d 2 (tm_mon r + 1)
                      @ printf_0d 2 (tm_mday r) @ ''T'' @ printf_0d 2 (tm_hour r)
                      @ printf_0d 2 (tm_min r) @ printf_0d 2 (tm_sec r)
                      @ (if unit = WID_TIME_MS then printf_0d 3 (tick mod 1000) else [])"
    by auto
  note F = gmtime_r_fields [OF g]
  have k: "nat (tm_mon r) < 12" using F by linarith
  have dim31: "days_in_month ! nat (tm_mon r) \<le> 31" using k days_in_month_le_31 by blast
  have d99: "0 \<le> tm_mday r" "tm_mday r \<le> 99" using F dim31 by (auto split: if_splits)
  have msr: "0 \<le> tick mod 1000" "tick mod 1000 < 1000"
    using pos_mod_bound [of 1000 tick] by simp_all
  have nd: "CHR ''.'' \<notin> set (printf_0d 4 (tm_year r + 1900))"
    "CHR ''.'' \<notin> set (printf_0d 2 (tm_mon r + 1))"
    "CHR ''.'' \<notin> set (printf_0d 2 (tm_mday r))"
    "CHR ''.'' \<notin> set (printf_0d 2 (tm_hour r))"
    "CHR ''.'' \<notin> set (printf_0d 2 (tm_min r))"
    "CHR ''.'' \<notin> set (printf_0d 2 (tm_sec r))"
    "CHR ''.'' \<notin> set (printf_0d 3 (tick mod 1000))"
    using printf_0d_no_dot [of "tm_year r + 1900" 4] printf_0d_no_dot [of "tm_mon r + 1" 2]
      printf_0d_no_dot [of "tm_mday r" 2] printf_0d_no_dot [of "tm_hour r" 2]
      printf_0d_no_dot [of "tm_min r" 2] printf_0d_no_dot [of "tm_sec r" 2]
      printf_0d_no_dot [of "tick mod 1000" 3] F d99 yr msr
    by simp_all
  have len: "length ts = nat (wid_timestamp_len unit)"
    using wid_fmt_tick_valid [OF assms(1,2)] assms(3) by auto
  show ?thesis using len nd by (simp add: ts)
qed

lemma printf_0d_2_less:
  "0 \<le> a \<Longrightarrow> a < 100 \<Longrightarrow> 0 \<le> b \<Longrightarrow> b < 100 \<Longrightarrow> a < b \<or> (a = b \<and> x < y)
     \<Longrightarrow> printf_0d 2 a @ x < printf_0d 2 b @ y"
  using printf_0d_append_less [of a 2 b x y] by simp

lemma calendar_fields_less:
  assumes "0 \<le> y1" "y1 < 10000" "0 \<le> y2" "y2 < 10000"
    and "0 \<le> mo1" "mo1 < 100" "0 \<le> mo2" "mo2 < 100"
    and "0 \<le> d1" "d1 < 100" "0 \<le> d2" "d2 < 100"
    and "0 \<le> h1" "h1 < 100" "0 \<le> h2" "h2 < 100"
    and "0 \<le> mi1" "mi1 < 100" "0 \<le> mi2" "mi2 < 100"
    and "0 \<le> s1" "s1 < 100" "0 \<le> s2" "s2 < 100"
    and lex: "y1 < y2 \<or> (y1 = y2 \<and> (mo1 < mo2 \<or> (mo1 = mo2 \<and> (d1 < d2 \<or> (d1 = d2
        \<and> (h1 < h2 \<or> (h1 = h2 \<and> (mi1 < mi2 \<or> (mi1 = mi2
        \<and> (s1 < s2 \<or> (s1 = s2 \<and> x1 < x2)))))))))))"
  shows "printf_0d 4 y1 @ printf_0d 2 mo1 @ printf_0d 2 d1 @ ''T'' @ printf_0d 2 h1
           @ printf_0d 2 mi1 @ printf_0d 2 s1 @ x1
       < printf_0d 4 y2 @ printf_0d 2 mo2 @ printf_0d 2 d2 @ ''T'' @ printf_0d 2 h2
           @ printf_0d 2 mi2 @ printf_0d 2 s2 @ x2"
proof -
  define S1 where "S1 = printf_0d 2 s1 @ x1"
  define S2 where "S2 = printf_0d 2 s2 @ x2"
  define M1 where "M1 = printf_0d 2 mi1 @ S1"
  define M2 where "M2 = printf_0d 2 mi2 @ S2"
  define H1 where "H1 = printf_0d 2 h1 @ M1"
  define H2 where "H2 = printf_0d 2 h2 @ M2"
  define D1 where "D1 = printf_0d 2 d1 @ ''T'' @ H1"
  define D2 where "D2 = printf_0d 2 d2 @ ''T'' @ H2"
  define O1 where "O1 = printf_0d 2 mo1 @ D1"
  define O2 where "O2 = printf_0d 2 mo2 @ D2"
  have s: "s1 < s2 \<or> (s1 = s2 \<and> x1 < x2) \<Longrightarrow> S1 < S2"
    unfolding S1_def S2_def using assms(21-24) by (intro printf_0d_2_less)
  have m: "mi1 < mi2 \<or> (mi1 = mi2 \<and> S1 < S2) \<Longrightarrow> M1 < M2"
    unfolding M1_def M2_def using assms(17-20) by (intro printf_0d_2_less)
  have h: "h1 < h2 \<or> (h1 = h2 \<and> M1 < M2) \<Longrightarrow> H1 < H2"
    unfolding H1_def H2_def using assms(13-16) by (intro printf_0d_2_less)
  have t: "H1 < H2 \<Longrightarrow> ''T'' @ H1 < ''T'' @ H2" by simp
  have d: "d1 < d2 \<or> (d1 = d2 \<and> ''T'' @ H1 < ''T'' @ H2) \<Longrightarrow> D1 < D2"
    unfolding D1_def D2_def using assms(9-12) by (intro printf_0d_2_less)
  have o: "mo1 < mo2 \<or> (mo1 = mo2 \<and> D1 < D2) \<Longrightarrow> O1 < O2"
    unfolding O1_def O2_def using assms(5-8) by (intro printf_0d_2_less)
  have y: "y1 < y2 \<or> (y1 = y2 \<and> O1 < O2) \<Longrightarrow> printf_0d 4 y1 @ O1 < printf_0d 4 y2 @ O2"
    using printf_0d_append_less [of y1 4 y2 O1 O2] assms(1-4) by simp
  have "printf_0d 4 y1 @ O1 < printf_0d 4 y2 @ O2"
    using lex s m h t d o y by blast
  then show ?thesis
    unfolding O1_def O2_def D1_def D2_def H1_def H2_def M1_def M2_def S1_def S2_def by simp
qed

text \<open>
  Of two ticks from 1970 on, the later of which formats to a four-digit year, the later
  one formats to the later timestamp in the order of strings.
\<close>

lemma wid_fmt_tick_mono:
  assumes "0 \<le> t1" and "t1 < t2" and "formats_four_digit_year unit t2"
  shows "\<exists>ts1 ts2. wid_fmt_tick unit t1 = Inr ts1 \<and> wid_fmt_tick unit t2 = Inr ts2
           \<and> ts1 < ts2"
proof -
  have t2: "0 \<le> t2" using assms(1,2) by simp
  have f1: "formats_four_digit_year unit t1"
    using assms(1) _ assms(3) by (rule formats_four_digit_year_down) (use assms(2) in simp)
  define c1 where "c1 = (if unit = WID_TIME_MS then t1 div 1000 else t1)"
  define c2 where "c2 = (if unit = WID_TIME_MS then t2 div 1000 else t2)"
  define x1 where "x1 = (if unit = WID_TIME_MS then printf_0d 3 (t1 mod 1000) else [])"
  define x2 where "x2 = (if unit = WID_TIME_MS then printf_0d 3 (t2 mod 1000) else [])"
  from wid_fmt_tick_fields [OF assms(1) f1] obtain a where
    ga: "gmtime_r c1 = Some a"
    and ya: "1000 \<le> tm_year a + 1900" "tm_year a + 1900 \<le> 9999"
    and fa: "wid_fmt_tick unit t1
               = Inr (printf_0d 4 (tm_year a + 1900) @ printf_0d 2 (tm_mon a + 1)
                      @ printf_0d 2 (tm_mday a) @ ''T'' @ printf_0d 2 (tm_hour a)
                      @ printf_0d 2 (tm_min a) @ printf_0d 2 (tm_sec a) @ x1)"
    unfolding c1_def x1_def by auto
  from wid_fmt_tick_fields [OF t2 assms(3)] obtain b where
    gb: "gmtime_r c2 = Some b"
    and yb: "1000 \<le> tm_year b + 1900" "tm_year b + 1900 \<le> 9999"
    and fb: "wid_fmt_tick unit t2
               = Inr (printf_0d 4 (tm_year b + 1900) @ printf_0d 2 (tm_mon b + 1)
                      @ printf_0d 2 (tm_mday b) @ ''T'' @ printf_0d 2 (tm_hour b)
                      @ printf_0d 2 (tm_min b) @ printf_0d 2 (tm_sec b) @ x2)"
    unfolding c2_def x2_def by auto
  note A = gmtime_r_fields [OF ga]
  note B = gmtime_r_fields [OF gb]
  have ka: "nat (tm_mon a) < 12" using A by linarith
  have kb: "nat (tm_mon b) < 12" using B by linarith
  have da: "tm_mday a \<le> 31"
    using A ka days_in_month_le_31 [rule_format, OF ka] by (auto split: if_splits)
  have db: "tm_mday b \<le> 31"
    using B kb days_in_month_le_31 [rule_format, OF kb] by (auto split: if_splits)
  have c0: "0 \<le> c1" using assms(1) by (simp add: c1_def pos_imp_zdiv_nonneg_iff)
  have lex: "tm_year a + 1900 < tm_year b + 1900
       \<or> (tm_year a + 1900 = tm_year b + 1900
          \<and> (tm_mon a + 1 < tm_mon b + 1
             \<or> (tm_mon a + 1 = tm_mon b + 1
                \<and> (tm_mday a < tm_mday b
                   \<or> (tm_mday a = tm_mday b
                      \<and> (tm_hour a < tm_hour b
                         \<or> (tm_hour a = tm_hour b
                            \<and> (tm_min a < tm_min b
                               \<or> (tm_min a = tm_min b
                                  \<and> (tm_sec a < tm_sec b
                                     \<or> (tm_sec a = tm_sec b \<and> x1 < x2)))))))))))"
  proof (cases "c1 < c2")
    case True
    from gmtime_r_mono [OF c0 True ga gb] show ?thesis by auto
  next
    case False
    have "c1 \<le> c2" using assms(2) zdiv_mono1 [of t1 t2 1000] by (simp add: c1_def c2_def)
    then have eq: "c1 = c2" using False by simp
    then have ms: "unit = WID_TIME_MS" using assms(2) by (auto simp: c1_def c2_def split: if_splits)
    have ab: "a = b" using ga gb eq by simp
    from div_mod_lex [of 1000 t1 t2] assms(2) eq ms
    have lt: "t1 mod 1000 < t2 mod 1000" by (simp add: c1_def c2_def)
    have "0 \<le> t1 mod 1000" "t2 mod 1000 < 10 ^ 3"
      using pos_mod_bound [of 1000 t2] by simp_all
    from printf_0d_less [OF this(1) lt this(2)]
    have "x1 < x2" by (simp add: x1_def x2_def ms)
    then show ?thesis using ab by simp
  qed
  have "printf_0d 4 (tm_year a + 1900) @ printf_0d 2 (tm_mon a + 1)
                      @ printf_0d 2 (tm_mday a) @ ''T'' @ printf_0d 2 (tm_hour a)
                      @ printf_0d 2 (tm_min a) @ printf_0d 2 (tm_sec a) @ x1
      < printf_0d 4 (tm_year b + 1900) @ printf_0d 2 (tm_mon b + 1)
                      @ printf_0d 2 (tm_mday b) @ ''T'' @ printf_0d 2 (tm_hour b)
                      @ printf_0d 2 (tm_min b) @ printf_0d 2 (tm_sec b) @ x2"
  proof (rule calendar_fields_less [OF _ _ _ _ _ _ _ _ _ _ _ _ _ _ _ _ _ _ _ _ _ _ _ _ lex])
    show "0 \<le> tm_year a + 1900" "tm_year a + 1900 < 10000" using ya by simp_all
    show "0 \<le> tm_year b + 1900" "tm_year b + 1900 < 10000" using yb by simp_all
    show "0 \<le> tm_mon a + 1" "tm_mon a + 1 < 100" using A by simp_all
    show "0 \<le> tm_mon b + 1" "tm_mon b + 1 < 100" using B by simp_all
    show "0 \<le> tm_mday a" "tm_mday a < 100" using A da by simp_all
    show "0 \<le> tm_mday b" "tm_mday b < 100" using B db by simp_all
    show "0 \<le> tm_hour a" "tm_hour a < 100" using A by simp_all
    show "0 \<le> tm_hour b" "tm_hour b < 100" using B by simp_all
    show "0 \<le> tm_min a" "tm_min a < 100" using A by simp_all
    show "0 \<le> tm_min b" "tm_min b < 100" using B by simp_all
    show "0 \<le> tm_sec a" "tm_sec a < 100" using A by simp_all
    show "0 \<le> tm_sec b" "tm_sec b < 100" using B by simp_all
  qed
  then show ?thesis using fa fb by simp
qed

section \<open>The timestamp of an emitted identifier\<close>

lemma wid_gen_step_unit:
  "wid_gen_step now_tick gen = Inr gen' \<Longrightarrow> gen_time_unit gen' = gen_time_unit gen"
  by (auto simp: wid_gen_step_def Let_def split: sum.splits if_splits)

lemma wid_gen_next_n_unit:
  "wid_gen_next_n calls gen = Inr (gen', outs) \<Longrightarrow> gen_time_unit gen' = gen_time_unit gen"
proof (induction calls arbitrary: gen outs)
  case Nil
  then show ?case by simp
next
  case (Cons c calls)
  obtain now_tick rnd where c: "c = (now_tick, rnd)" by (cases c)
  from Cons.prems c obtain g1 out1 outs1 where
    first: "wid_gen_next now_tick rnd WID_MAX_LEN gen = Inr (g1, out1)"
    and rest: "wid_gen_next_n calls g1 = Inr (gen', outs1)"
    by (auto split: sum.splits)
  from Cons.IH [OF rest] wid_gen_step_unit [OF wid_gen_next_step [OF first]]
  show ?case by simp
qed

text \<open>The last identifier of a run is the one emitted from the final state.\<close>

lemma wid_gen_next_n_last:
  "wid_gen_next_n calls gen = Inr (gen', outs) \<Longrightarrow> calls \<noteq> []
     \<Longrightarrow> length outs = length calls
         \<and> wid_gen_emit (snd (last calls)) WID_MAX_LEN gen' = Inr (last outs)"
proof (induction calls arbitrary: gen outs)
  case Nil
  then show ?case by simp
next
  case (Cons c calls)
  obtain now_tick rnd where c: "c = (now_tick, rnd)" by (cases c)
  from Cons.prems(1) c obtain g1 out1 outs1 where
    first: "wid_gen_next now_tick rnd WID_MAX_LEN gen = Inr (g1, out1)"
    and rest: "wid_gen_next_n calls g1 = Inr (gen', outs1)"
    and outs: "outs = out1 # outs1"
    by (auto split: sum.splits)
  show ?case
  proof (cases "calls = []")
    case True
    then have "gen' = g1" "outs1 = []" using rest by simp_all
    then show ?thesis using True c outs wid_gen_next_emit [OF first] by simp
  next
    case False
    from Cons.IH [OF rest False] have
      l: "length outs1 = length calls"
      and e: "wid_gen_emit (snd (last calls)) WID_MAX_LEN gen' = Inr (last outs1)" by simp_all
    have "outs1 \<noteq> []" using l False by auto
    then show ?thesis using False l e outs by simp
  qed
qed

text \<open>
  An identifier emitted into a buffer of \<^verbatim>\<open>WID_MAX_LEN\<close> bytes starts with the
  formatted tick, and the dot after it is the first dot.
\<close>

lemma wid_gen_emit_timestamp:
  assumes "wid_gen_emit rnd WID_MAX_LEN gen = Inr out"
    and "wid_fmt_tick (gen_time_unit gen) (last_tick gen) = Inr ts"
    and "CHR ''.'' \<notin> set ts" and "length ts \<le> 18"
  shows "wid_timestamp_of out = ts"
proof -
  from assms(1,2) obtain rest where "out = c_snprintf WID_MAX_LEN (ts @ ''.'' @ rest)"
    by (auto simp: wid_gen_emit_def Let_def split: sum.splits if_splits)
  moreover have "255 - length ts = Suc (254 - length ts)" using assms(4) by simp
  ultimately have "out = ts @ CHR ''.'' # take (254 - length ts) rest"
    by (simp add: c_snprintf_def WID_MAX_LEN_def)
  moreover have "x \<noteq> CHR ''.''" if "x \<in> set ts" for x using that assms(3) by auto
  then have "takeWhile (\<lambda>c. c \<noteq> CHR ''.'') (ts @ ys)
      = ts @ takeWhile (\<lambda>c. c \<noteq> CHR ''.'') ys" for ys
    by (rule takeWhile_append2)
  ultimately show ?thesis by (simp add: wid_timestamp_of_def)
qed

section \<open>The year loop in closed form\<close>

lemma div_step:
  fixes y k :: int
  assumes "0 < k"
  shows "y div k - (y - 1) div k = (if y mod k = 0 then 1 else 0)"
proof (cases "y mod k = 0")
  case True
  have "y - 1 = k * (y div k - 1) + (k - 1)"
    using True div_mult_mod_eq [of y k] by (simp add: algebra_simps)
  then have "(y - 1) div k = y div k - 1"
    using assms by (intro int_div_pos_eq [where r = "k - 1"]) simp_all
  then show ?thesis using True by simp
next
  case False
  have "0 \<le> y mod k" "y mod k < k"
    using assms pos_mod_sign [of k y] pos_mod_bound [of k y] by simp_all
  then have r: "0 < y mod k" "y mod k < k" using False by simp_all
  have "y - 1 = k * (y div k) + (y mod k - 1)" by simp
  then have "(y - 1) div k = y div k"
    using r by (intro int_div_pos_eq [where r = "y mod k - 1"]) simp_all
  then show ?thesis using False by simp
qed

lemma leap_years_before_step:
  "leap_years_before (y + 1) - leap_years_before y = (if gm_leap y then 1 else 0)"
proof -
  define c4 where "c4 = (y mod 4 = 0)"
  define c100 where "c100 = (y mod 100 = 0)"
  define c400 where "c400 = (y mod 400 = 0)"
  define s4 where "s4 = y div 4 - (y - 1) div 4"
  define s100 where "s100 = y div 100 - (y - 1) div 100"
  define s400 where "s400 = y div 400 - (y - 1) div 400"
  have d: "(100::int) dvd 400" "(4::int) dvd 100" by simp_all
  have imp: "c400 \<longrightarrow> c100" "c100 \<longrightarrow> c4"
    unfolding c4_def c100_def c400_def mod_eq_0_iff_dvd using d by (blast intro: dvd_trans)+
  have z: "(0::int) < 4" "(0::int) < 100" "(0::int) < 400" by simp_all
  have s: "s4 = (if c4 then 1 else 0)" "s100 = (if c100 then 1 else 0)"
    "s400 = (if c400 then 1 else 0)"
    unfolding s4_def s100_def s400_def c4_def c100_def c400_def
    by (rule div_step [OF z(1)], rule div_step [OF z(2)], rule div_step [OF z(3)])
  have l: "gm_leap y = (c4 \<and> (\<not> c100 \<or> c400))"
    unfolding gm_leap_def c4_def c100_def c400_def by (rule refl)
  have "leap_years_before (y + 1) - leap_years_before y
      = (y div 4 - y div 100 + y div 400) - ((y - 1) div 4 - (y - 1) div 100 + (y - 1) div 400)"
    unfolding leap_years_before_def by (simp only: add_diff_cancel_right')
  also have "\<dots> = s4 - s100 + s400"
    unfolding s4_def s100_def s400_def by (simp only: algebra_simps)
  finally have e: "leap_years_before (y + 1) - leap_years_before y = s4 - s100 + s400" .
  show ?thesis unfolding e s l using imp by (cases c4; cases c100; cases c400; simp)
qed

lemma gm_days_in_year_step:
  "gm_days_in_year y = 365 + (leap_years_before (y + 1) - leap_years_before y)"
  by (simp add: leap_years_before_step gm_days_in_year_def)

lemma gm_year_of_closed_aux:
  "nat (y - a) = n \<Longrightarrow> a \<le> y \<Longrightarrow> 0 \<le> r \<Longrightarrow> r < gm_days_in_year y
     \<Longrightarrow> leap_years_before a \<le> leap_years_before y
         \<and> gm_year_of a (365 * (y - a) + (leap_years_before y - leap_years_before a) + r)
             = (y, r)"
proof (induction n arbitrary: a)
  case 0
  then have "a = y" by simp
  then show ?case using "0.prems"(3,4) by (subst gm_year_of.simps) simp
next
  case (Suc n)
  have lt: "a < y" using Suc.prems(1) by simp
  have n: "nat (y - (a + 1)) = n" using Suc.prems(1) by simp
  have le: "a + 1 \<le> y" using lt by simp
  from Suc.IH [OF n le Suc.prems(3,4)]
  have mono: "leap_years_before (a + 1) \<le> leap_years_before y"
    and rec: "gm_year_of (a + 1)
        (365 * (y - (a + 1)) + (leap_years_before y - leap_years_before (a + 1)) + r) = (y, r)"
    by simp_all
  define d where "d = 365 * (y - a) + (leap_years_before y - leap_years_before a) + r"
  have step: "0 \<le> leap_years_before (a + 1) - leap_years_before a"
    by (simp add: leap_years_before_step)
  have sub: "d - gm_days_in_year a
      = 365 * (y - (a + 1)) + (leap_years_before y - leap_years_before (a + 1)) + r"
    by (simp add: d_def gm_days_in_year_step [of a] algebra_simps)
  have ge: "0 \<le> d - gm_days_in_year a" unfolding sub using mono le Suc.prems(3) by simp
  have pos: "0 < gm_days_in_year a" by (simp add: gm_days_in_year_def)
  have "gm_year_of a d = gm_year_of (a + 1) (d - gm_days_in_year a)"
    using ge pos by (subst gm_year_of.simps) simp
  then have "gm_year_of a d = (y, r)" using rec sub by simp
  then show ?case using mono step unfolding d_def by simp
qed

lemma gm_year_of_closed:
  "a \<le> y \<Longrightarrow> 0 \<le> r \<Longrightarrow> r < gm_days_in_year y
     \<Longrightarrow> gm_year_of a (365 * (y - a) + (leap_years_before y - leap_years_before a) + r)
           = (y, r)"
  using gm_year_of_closed_aux [of y a "nat (y - a)" r] by simp

text \<open>The last second of the year 9999 and the first of the year 10000.\<close>

lemma gm_year_of_9999:
  "gm_year_of 1970 2932896 = (9999, 364)" "gm_year_of 1970 2932897 = (10000, 0)"
  using gm_year_of_closed [of 1970 9999 364] gm_year_of_closed [of 1970 10000 0]
  by (simp_all add: leap_years_before_def gm_days_in_year_def gm_leap_def)

lemma wid_fmt_tick_9999:
  "wid_fmt_tick WID_TIME_SEC 253402300799 = Inr ''99991231T235959''"
  "wid_fmt_tick WID_TIME_SEC 253402300800 = Inr ''100000101T000000''"
  by (simp_all add: wid_fmt_tick_def gmtime_r_def gm_year_of_9999 gm_month_lengths_def
      gm_leap_def INT_MIN_def INT_MAX_def c_strftime_def printf_0d_def dec_digits.simps
      digit_char_simps c_snprintf_def Let_def)

section \<open>Claims about the generators\<close>

text \<open>
  Claim C5. For every WID generator reached from its initialiser by calls of
  \<^verbatim>\<open>wid_gen_next\<close>, a successful call that read the wall clock \<open>now_tick\<close> leaves
  \<open>last_tick\<close> at or above \<open>now_tick\<close> and \<open>last_seq\<close> between 0 and
  \<open>max_seq = 10 ^ W - 1\<close>; \<open>last_tick\<close> does not decrease, and the pair
  \<open>(last_tick, last_seq)\<close> is strictly greater, in the lexicographic order, than before
  the call. The clock reading is arbitrary, so it may lie before the previous one.
\<close>

theorem wid_gen_monotone:
  assumes "wid_reachable gen"
    and "wid_gen_next now_tick rnd out_len gen = Inr (gen', out)"
  shows "now_tick \<le> last_tick gen' \<and> 0 \<le> last_seq gen' \<and> last_seq gen' \<le> max_seq gen'
       \<and> max_seq gen' = 10 ^ nat (gen_W gen') - 1
       \<and> last_tick gen \<le> last_tick gen'
       \<and> lex_less (last_tick gen, last_seq gen) (last_tick gen', last_seq gen')"
proof -
  have inv: "wid_gen_inv gen" using assms(1) by (rule wid_reachable_inv)
  have step: "wid_gen_step now_tick gen = Inr gen'" using assms(2) by (rule wid_gen_next_step)
  have inv': "wid_gen_inv gen'" using step inv by (rule wid_gen_step_inv)
  show ?thesis
    using wid_gen_step_cases [OF step inv] inv inv'
    by (auto simp: wid_gen_inv_def lex_less_def)
qed

text \<open>
  The witness: a generator that emitted at 2026-02-12T09:15:30 is called again with the
  clock one second earlier.
\<close>

theorem wid_gen_monotone_witness:
  "wid_reachable \<lparr> gen_W = 4, gen_Z = 0, gen_time_unit = WID_TIME_SEC,
        last_tick = 1770887730, last_seq = 0, max_seq = 9999 \<rparr>
   \<and> wid_gen_next 1770887729 (\<lambda>i. 0) 256
        \<lparr> gen_W = 4, gen_Z = 0, gen_time_unit = WID_TIME_SEC,
          last_tick = 1770887730, last_seq = 0, max_seq = 9999 \<rparr>
      = Inr (\<lparr> gen_W = 4, gen_Z = 0, gen_time_unit = WID_TIME_SEC,
               last_tick = 1770887730, last_seq = 1, max_seq = 9999 \<rparr>,
             ''20260212T091530.0001Z'')
   \<and> lex_less (1770887730, 0) (1770887730, 1)"
proof -
  let ?g0 = "wid_gen_init_ex 4 0 WID_TIME_SEC"
  let ?g1 = "\<lparr> gen_W = 4, gen_Z = 0, gen_time_unit = WID_TIME_SEC,
        last_tick = 1770887730, last_seq = 0, max_seq = 9999 \<rparr>"
  let ?g2 = "\<lparr> gen_W = 4, gen_Z = 0, gen_time_unit = WID_TIME_SEC,
        last_tick = 1770887730, last_seq = 1, max_seq = 9999 \<rparr>"
  have first: "wid_gen_next 1770887730 (\<lambda>i. 0) 256 ?g0 = Inr (?g1, ''20260212T091530.0000Z'')"
    by (simp add: eval_gen)
  have r: "wid_reachable ?g1"
    using wid_init first by (rule wid_next)
  have second: "wid_gen_next 1770887729 (\<lambda>i. 0) 256 ?g1 = Inr (?g2, ''20260212T091530.0001Z'')"
    by (simp add: eval_gen)
  show ?thesis
    using wid_gen_monotone [OF r second] r second by simp
qed

text \<open>
  Claim C6, as the code has it. In a reachable WID generator, a call within the same tick
  (the clock is not past \<open>last_tick\<close>) whose incremented sequence exceeds
  \<open>max_seq = 10 ^ W - 1\<close> borrows a tick: \<open>last_tick\<close> grows by one and
  \<open>last_seq\<close> is 0. With \<open>W = 1\<close>, twelve successful calls that all read the same
  clock value \<open>T\<close> end on a tick strictly above the tick of the first call, and, when
  that last tick formats to a four-digit year, the timestamp of the twelfth identifier
  is strictly greater than the timestamp of the first, as strings.
\<close>

theorem wid_gen_tick_borrow:
  assumes "wid_reachable gen"
  shows "(now_tick \<le> last_tick gen \<and> max_seq gen < last_seq gen + 1
            \<and> wid_gen_next now_tick rnd out_len gen = Inr (gen', out)
          \<longrightarrow> max_seq gen = 10 ^ nat (gen_W gen) - 1
              \<and> last_tick gen' = last_tick gen + 1 \<and> last_seq gen' = 0)
       \<and> (gen_W gen = 1 \<and> wid_gen_next T rnd1 WID_MAX_LEN gen = Inr (gen1, out1)
            \<and> length rnds = 11 \<and> wid_gen_next_n (map (Pair T) rnds) gen1 = Inr (gen12, outs)
          \<longrightarrow> last_tick gen1 < last_tick gen12 \<and> length outs = 11
              \<and> (formats_four_digit_year (gen_time_unit gen12) (last_tick gen12)
                  \<longrightarrow> wid_timestamp_of out1 < wid_timestamp_of (last outs)))"
proof (intro conjI impI)
  have inv: "wid_gen_inv gen" using assms by (rule wid_reachable_inv)
  {
    assume a: "now_tick \<le> last_tick gen \<and> max_seq gen < last_seq gen + 1
            \<and> wid_gen_next now_tick rnd out_len gen = Inr (gen', out)"
    then have step: "wid_gen_step now_tick gen = Inr gen'" by (auto dest: wid_gen_next_step)
    show "max_seq gen = 10 ^ nat (gen_W gen) - 1" using inv by (simp add: wid_gen_inv_def)
    show "last_tick gen' = last_tick gen + 1" "last_seq gen' = 0"
      using wid_gen_step_cases [OF step inv] a by auto
  }
  {
    assume b: "gen_W gen = 1 \<and> wid_gen_next T rnd1 WID_MAX_LEN gen = Inr (gen1, out1)
            \<and> length rnds = 11 \<and> wid_gen_next_n (map (Pair T) rnds) gen1 = Inr (gen12, outs)"
    then have first: "wid_gen_next T rnd1 WID_MAX_LEN gen = Inr (gen1, out1)" by simp
    have step: "wid_gen_step T gen = Inr gen1" using first by (rule wid_gen_next_step)
    have inv1: "wid_gen_inv gen1" using step inv by (rule wid_gen_step_inv)
    have m: "max_seq gen1 = 9"
      using wid_gen_step_cases [OF step inv] inv b by (auto simp: wid_gen_inv_def)
    have T1: "T \<le> last_tick gen1" and s1: "0 \<le> last_seq gen1"
      using wid_gen_step_cases [OF step inv] inv by (auto simp: wid_gen_inv_def)
    from b have rest: "wid_gen_next_n (map (Pair T) rnds) gen1 = Inr (gen12, outs)" by simp
    from wid_gen_next_n_potential [OF rest inv1 T1] m b
    have phi: "10 * last_tick gen12 + last_seq gen12 = 10 * last_tick gen1 + last_seq gen1 + 11"
      and inv12: "wid_gen_inv gen12" and m12: "max_seq gen12 = 9"
      by simp_all
    have "last_seq gen12 \<le> 9" using inv12 m12 by (simp add: wid_gen_inv_def)
    then show less: "last_tick gen1 < last_tick gen12" using phi s1 by linarith
    have ne: "map (Pair T) rnds \<noteq> []" using b by auto
    from wid_gen_next_n_last [OF rest ne] b
    show "length outs = 11" by simp
    {
      assume yr: "formats_four_digit_year (gen_time_unit gen12) (last_tick gen12)"
      have unit: "gen_time_unit gen12 = gen_time_unit gen1" using rest by (rule wid_gen_next_n_unit)
      have t0: "0 \<le> last_tick gen1" using inv1 by (simp add: wid_gen_inv_def)
      have t12: "0 \<le> last_tick gen12" using t0 less by simp
      have yr12: "formats_four_digit_year (gen_time_unit gen1) (last_tick gen12)"
        using yr unit by simp
      have yr1: "formats_four_digit_year (gen_time_unit gen1) (last_tick gen1)"
        using t0 _ yr12 by (rule formats_four_digit_year_down) (use less in simp)
      from wid_fmt_tick_mono [OF t0 less yr12] obtain ts1 ts12 where
        f1: "wid_fmt_tick (gen_time_unit gen1) (last_tick gen1) = Inr ts1"
        and f12: "wid_fmt_tick (gen_time_unit gen1) (last_tick gen12) = Inr ts12"
        and lt: "ts1 < ts12" by auto
      have l18: "nat (wid_timestamp_len (gen_time_unit gen1)) \<le> 18"
        by (simp add: wid_timestamp_len_def)
      from wid_fmt_tick_shape [OF t0 yr1 f1] l18
      have sh1: "CHR ''.'' \<notin> set ts1" "length ts1 \<le> 18" by simp_all
      from wid_fmt_tick_shape [OF t12 yr12 f12] l18
      have sh12: "CHR ''.'' \<notin> set ts12" "length ts12 \<le> 18" by simp_all
      have e1: "wid_gen_emit rnd1 WID_MAX_LEN gen1 = Inr out1"
        using first by (rule wid_gen_next_emit)
      have e12: "wid_gen_emit (snd (last (map (Pair T) rnds))) WID_MAX_LEN gen12
          = Inr (last outs)"
        using wid_gen_next_n_last [OF rest ne] by simp
      have "wid_timestamp_of out1 = ts1"
        using e1 f1 sh1 by (rule wid_gen_emit_timestamp)
      moreover have "wid_timestamp_of (last outs) = ts12"
        using e12 f12 [folded unit] sh12 by (rule wid_gen_emit_timestamp)
      ultimately show "wid_timestamp_of out1 < wid_timestamp_of (last outs)"
        using lt by simp
    }
  }
qed

text \<open>
  The witness: \<^verbatim>\<open>WidGen(W=1, Z=0, sec)\<close> called twelve times at 2026-02-12T09:15:30.
  The eleventh call borrows the next second, and the twelfth timestamp is
  \<^verbatim>\<open>20260212T091531\<close>.
\<close>

theorem wid_gen_tick_borrow_witness:
  "wid_gen_next_n (replicate 10 (1770887730, \<lambda>i. 0)) (wid_gen_init_ex 1 0 WID_TIME_SEC)
     = Inr (\<lparr> gen_W = 1, gen_Z = 0, gen_time_unit = WID_TIME_SEC,
               last_tick = 1770887730, last_seq = 9, max_seq = 9 \<rparr>,
            [''20260212T091530.0Z'', ''20260212T091530.1Z'', ''20260212T091530.2Z'',
             ''20260212T091530.3Z'', ''20260212T091530.4Z'', ''20260212T091530.5Z'',
             ''20260212T091530.6Z'', ''20260212T091530.7Z'', ''20260212T091530.8Z'',
             ''20260212T091530.9Z''])
   \<and> wid_gen_next 1770887730 (\<lambda>i. 0) 256
        \<lparr> gen_W = 1, gen_Z = 0, gen_time_unit = WID_TIME_SEC,
          last_tick = 1770887730, last_seq = 9, max_seq = 9 \<rparr>
      = Inr (\<lparr> gen_W = 1, gen_Z = 0, gen_time_unit = WID_TIME_SEC,
                last_tick = 1770887731, last_seq = 0, max_seq = 9 \<rparr>, ''20260212T091531.0Z'')
   \<and> wid_gen_next 1770887730 (\<lambda>i. 0) WID_MAX_LEN (wid_gen_init_ex 1 0 WID_TIME_SEC)
      = Inr (\<lparr> gen_W = 1, gen_Z = 0, gen_time_unit = WID_TIME_SEC,
                last_tick = 1770887730, last_seq = 0, max_seq = 9 \<rparr>, ''20260212T091530.0Z'')
   \<and> wid_gen_next_n (map (Pair 1770887730) (replicate 11 (\<lambda>i. 0)))
        \<lparr> gen_W = 1, gen_Z = 0, gen_time_unit = WID_TIME_SEC,
          last_tick = 1770887730, last_seq = 0, max_seq = 9 \<rparr>
      = Inr (\<lparr> gen_W = 1, gen_Z = 0, gen_time_unit = WID_TIME_SEC,
                last_tick = 1770887731, last_seq = 1, max_seq = 9 \<rparr>,
             [''20260212T091530.1Z'', ''20260212T091530.2Z'', ''20260212T091530.3Z'',
              ''20260212T091530.4Z'', ''20260212T091530.5Z'', ''20260212T091530.6Z'',
              ''20260212T091530.7Z'', ''20260212T091530.8Z'', ''20260212T091530.9Z'',
              ''20260212T091531.0Z'', ''20260212T091531.1Z''])
   \<and> formats_four_digit_year WID_TIME_SEC 1770887731
   \<and> wid_timestamp_of ''20260212T091530.0Z'' = ''20260212T091530''
   \<and> wid_timestamp_of ''20260212T091531.1Z'' = ''20260212T091531''
   \<and> wid_timestamp_of ''20260212T091530.0Z'' < wid_timestamp_of ''20260212T091531.1Z''"
proof -
  let ?g0 = "wid_gen_init_ex 1 0 WID_TIME_SEC"
  let ?g1 = "\<lparr> gen_W = 1, gen_Z = 0, gen_time_unit = WID_TIME_SEC,
          last_tick = 1770887730, last_seq = 0, max_seq = 9 \<rparr>"
  let ?g10 = "\<lparr> gen_W = 1, gen_Z = 0, gen_time_unit = WID_TIME_SEC,
          last_tick = 1770887730, last_seq = 9, max_seq = 9 \<rparr>"
  let ?g11 = "\<lparr> gen_W = 1, gen_Z = 0, gen_time_unit = WID_TIME_SEC,
          last_tick = 1770887731, last_seq = 0, max_seq = 9 \<rparr>"
  let ?g12 = "\<lparr> gen_W = 1, gen_Z = 0, gen_time_unit = WID_TIME_SEC,
          last_tick = 1770887731, last_seq = 1, max_seq = 9 \<rparr>"
  let ?outs = "[''20260212T091530.1Z'', ''20260212T091530.2Z'', ''20260212T091530.3Z'',
              ''20260212T091530.4Z'', ''20260212T091530.5Z'', ''20260212T091530.6Z'',
              ''20260212T091530.7Z'', ''20260212T091530.8Z'', ''20260212T091530.9Z'',
              ''20260212T091531.0Z'', ''20260212T091531.1Z'']"
  have ten: "wid_gen_next_n (replicate 10 (1770887730, \<lambda>i. 0)) ?g0
     = Inr (?g10, [''20260212T091530.0Z'', ''20260212T091530.1Z'', ''20260212T091530.2Z'',
             ''20260212T091530.3Z'', ''20260212T091530.4Z'', ''20260212T091530.5Z'',
             ''20260212T091530.6Z'', ''20260212T091530.7Z'', ''20260212T091530.8Z'',
             ''20260212T091530.9Z''])"
  proof -
    have "replicate 10 c = [c, c, c, c, c, c, c, c, c, c]" for c :: "int \<times> (nat \<Rightarrow> 8 word)"
      by (simp add: eval_nat_numeral)
    then show ?thesis by (simp add: eval_gen)
  qed
  have r0: "wid_reachable ?g0" by (rule wid_init)
  have r10: "wid_reachable ?g10" using ten r0 by (rule wid_gen_next_n_reachable)
  have eleventh: "wid_gen_next 1770887730 (\<lambda>i. 0) 256 ?g10 = Inr (?g11, ''20260212T091531.0Z'')"
    by (simp add: eval_gen)
  have first: "wid_gen_next 1770887730 (\<lambda>i. 0) WID_MAX_LEN ?g0 = Inr (?g1, ''20260212T091530.0Z'')"
    by (simp add: eval_gen)
  have rest: "wid_gen_next_n (map (Pair 1770887730) (replicate 11 (\<lambda>i. 0))) ?g1
     = Inr (?g12, ?outs)"
  proof -
    have "map (Pair a) (replicate 11 c) = [(a, c), (a, c), (a, c), (a, c), (a, c), (a, c),
        (a, c), (a, c), (a, c), (a, c), (a, c)]" for a :: int and c :: "nat \<Rightarrow> 8 word"
      by (simp add: eval_nat_numeral)
    then show ?thesis by (simp add: eval_gen)
  qed
  have "1770887730 \<le> last_tick ?g10 \<and> max_seq ?g10 < last_seq ?g10 + 1
      \<and> wid_gen_next 1770887730 (\<lambda>i. 0) 256 ?g10 = Inr (?g11, ''20260212T091531.0Z'')"
    using eleventh by simp
  then have borrow: "max_seq ?g10 = 10 ^ nat (gen_W ?g10) - 1
      \<and> last_tick ?g11 = last_tick ?g10 + 1 \<and> last_seq ?g11 = 0"
    by (rule wid_gen_tick_borrow [OF r10, THEN conjunct1, THEN mp])
  have W0: "gen_W ?g0 = 1" by code_simp
  have len: "length (replicate 11 (\<lambda>i::nat. 0::8 word)) = 11" by simp
  have "gen_W ?g0 = 1
      \<and> wid_gen_next 1770887730 (\<lambda>i. 0) WID_MAX_LEN ?g0 = Inr (?g1, ''20260212T091530.0Z'')
      \<and> length (replicate 11 (\<lambda>i::nat. 0::8 word)) = 11
      \<and> wid_gen_next_n (map (Pair 1770887730) (replicate 11 (\<lambda>i. 0))) ?g1 = Inr (?g12, ?outs)"
    using W0 first len rest by (intro conjI)
  then have twelve: "last_tick ?g1 < last_tick ?g12 \<and> length ?outs = 11
      \<and> (formats_four_digit_year (gen_time_unit ?g12) (last_tick ?g12)
          \<longrightarrow> wid_timestamp_of ''20260212T091530.0Z'' < wid_timestamp_of (last ?outs))"
    by (rule wid_gen_tick_borrow [OF r0, THEN conjunct2, THEN mp])
  have yr: "formats_four_digit_year WID_TIME_SEC 1770887731" by code_simp
  have ts1: "wid_timestamp_of ''20260212T091530.0Z'' = ''20260212T091530''"
    by (simp add: wid_timestamp_of_def)
  have ts12: "wid_timestamp_of ''20260212T091531.1Z'' = ''20260212T091531''"
    by (simp add: wid_timestamp_of_def)
  have greater: "wid_timestamp_of ''20260212T091530.0Z'' < wid_timestamp_of ''20260212T091531.1Z''"
    using twelve yr by simp
  show ?thesis
    by (intro conjI ten eleventh first rest yr ts1 ts12 greater)
qed

text \<open>
  Without the condition on the year the timestamps do not follow the ticks: twelve calls
  in the last second of the year 9999 borrow the first second of the year 10000, whose
  timestamp has five digits for the year and sorts before the first one.
\<close>

theorem wid_gen_tick_borrow_counterexample:
  "wid_gen_next 253402300799 (\<lambda>i. 0) WID_MAX_LEN (wid_gen_init_ex 1 0 WID_TIME_SEC)
      = Inr (\<lparr> gen_W = 1, gen_Z = 0, gen_time_unit = WID_TIME_SEC,
                last_tick = 253402300799, last_seq = 0, max_seq = 9 \<rparr>, ''99991231T235959.0Z'')
   \<and> wid_gen_next_n (map (Pair 253402300799) (replicate 11 (\<lambda>i. 0)))
        \<lparr> gen_W = 1, gen_Z = 0, gen_time_unit = WID_TIME_SEC,
          last_tick = 253402300799, last_seq = 0, max_seq = 9 \<rparr>
      = Inr (\<lparr> gen_W = 1, gen_Z = 0, gen_time_unit = WID_TIME_SEC,
                last_tick = 253402300800, last_seq = 1, max_seq = 9 \<rparr>,
             [''99991231T235959.1Z'', ''99991231T235959.2Z'', ''99991231T235959.3Z'',
              ''99991231T235959.4Z'', ''99991231T235959.5Z'', ''99991231T235959.6Z'',
              ''99991231T235959.7Z'', ''99991231T235959.8Z'', ''99991231T235959.9Z'',
              ''100000101T000000.0Z'', ''100000101T000000.1Z''])
   \<and> wid_timestamp_of ''99991231T235959.0Z'' = ''99991231T235959''
   \<and> wid_timestamp_of ''100000101T000000.1Z'' = ''100000101T000000''
   \<and> \<not> wid_timestamp_of ''99991231T235959.0Z'' < wid_timestamp_of ''100000101T000000.1Z''"
proof -
  have first: "wid_gen_next 253402300799 (\<lambda>i. 0) WID_MAX_LEN (wid_gen_init_ex 1 0 WID_TIME_SEC)
      = Inr (\<lparr> gen_W = 1, gen_Z = 0, gen_time_unit = WID_TIME_SEC,
                last_tick = 253402300799, last_seq = 0, max_seq = 9 \<rparr>, ''99991231T235959.0Z'')"
    by (simp add: eval_gen wid_fmt_tick_9999)
  have rest: "wid_gen_next_n (map (Pair 253402300799) (replicate 11 (\<lambda>i. 0)))
        \<lparr> gen_W = 1, gen_Z = 0, gen_time_unit = WID_TIME_SEC,
          last_tick = 253402300799, last_seq = 0, max_seq = 9 \<rparr>
      = Inr (\<lparr> gen_W = 1, gen_Z = 0, gen_time_unit = WID_TIME_SEC,
                last_tick = 253402300800, last_seq = 1, max_seq = 9 \<rparr>,
             [''99991231T235959.1Z'', ''99991231T235959.2Z'', ''99991231T235959.3Z'',
              ''99991231T235959.4Z'', ''99991231T235959.5Z'', ''99991231T235959.6Z'',
              ''99991231T235959.7Z'', ''99991231T235959.8Z'', ''99991231T235959.9Z'',
              ''100000101T000000.0Z'', ''100000101T000000.1Z''])"
  proof -
    have "map (Pair a) (replicate 11 c) = [(a, c), (a, c), (a, c), (a, c), (a, c), (a, c),
        (a, c), (a, c), (a, c), (a, c), (a, c)]" for a :: int and c :: "nat \<Rightarrow> 8 word"
      by (simp add: eval_nat_numeral)
    then show ?thesis by (simp add: eval_gen wid_fmt_tick_9999)
  qed
  have ts1: "wid_timestamp_of ''99991231T235959.0Z'' = ''99991231T235959''"
    by (simp add: wid_timestamp_of_def)
  have ts12: "wid_timestamp_of ''100000101T000000.1Z'' = ''100000101T000000''"
    by (simp add: wid_timestamp_of_def)
  have less: "\<not> wid_timestamp_of ''99991231T235959.0Z'' < wid_timestamp_of ''100000101T000000.1Z''"
    by (simp add: ts1 ts12 less_char_def)
  show ?thesis by (intro conjI first rest ts1 ts12 less)
qed

text \<open>
  Claim C7. After a successful \<^verbatim>\<open>hlc_wid_observe(gen, remote_pt, remote_lc)\<close>, which
  needs both remote values non-negative, the generator's \<open>(pt, lc)\<close> is strictly
  greater than \<open>(remote_pt, remote_lc)\<close> in the lexicographic order, whatever the state
  before and whether or not the counter rolled over. From \<open>(pt = T, lc = 3)\<close> with the
  clock at \<open>T\<close>, \<open>observe(T, 9)\<close> gives \<open>(pt = T, lc = 10)\<close>; the specification's scenario
  has \<open>W = 4\<close>, and any generator whose \<open>max_lc\<close> is at least 10 does the same.
\<close>

theorem hlc_observe_dominates_remote:
  "(hlc_wid_observe now gen remote_pt remote_lc = Inr (True, gen')
      \<longrightarrow> 0 \<le> remote_pt \<and> 0 \<le> remote_lc
          \<and> lex_less (remote_pt, remote_lc) (pt gen', lc gen'))
   \<and> (0 \<le> T \<and> pt gen = T \<and> lc gen = 3 \<and> 10 \<le> max_lc gen
      \<longrightarrow> hlc_wid_observe T gen T 9 = Inr (True, gen\<lparr> lc := 10 \<rparr>))"
proof (intro conjI impI)
  assume ok: "hlc_wid_observe now gen remote_pt remote_lc = Inr (True, gen')"
  show nonneg: "0 \<le> remote_pt" "0 \<le> remote_lc"
    using ok by (auto simp: hlc_wid_observe_def split: if_splits)
  define new_pt where "new_pt = max (max now (pt gen)) remote_pt"
  obtain l where l: "hlc_wid_rollover_if_needed (gen\<lparr> lc := l, pt := new_pt \<rparr>) = Inr gen'"
    and lcase: "new_pt = remote_pt \<and> remote_lc < l \<or> remote_pt < new_pt"
    using ok nonneg unfolding new_pt_def
    by (auto simp: hlc_wid_observe_def Let_def max_def dest!: add_i64_Inr
        split: sum.splits if_splits)
  from hlc_rollover_cases [OF l] lcase
  show "lex_less (remote_pt, remote_lc) (pt gen', lc gen')"
    by (auto simp: lex_less_def)
next
  assume "0 \<le> T \<and> pt gen = T \<and> lc gen = 3 \<and> 10 \<le> max_lc gen"
  then show "hlc_wid_observe T gen T 9 = Inr (True, gen\<lparr> lc := 10 \<rparr>)"
    by (simp add: hlc_wid_observe_def Let_def add_i64_def INT64_MAX_def INT64_MIN_def
        hlc_wid_rollover_if_needed_def)
qed

text \<open>
  The witness: the scenario of the specification, \<^verbatim>\<open>HlcGen(node="n", W=4, Z=0, sec)\<close>
  in state \<open>(T, 3)\<close> with \<open>T\<close> = 2026-02-12T09:15:30, and a rollover with \<open>W = 1\<close>.
\<close>

theorem hlc_observe_dominates_remote_witness:
  "hlc_wid_observe 1770887730
      \<lparr> hlc_W = 4, hlc_Z = 0, hlc_time_unit = WID_TIME_SEC, hlc_node = ''n'',
        pt = 1770887730, lc = 3, max_lc = 9999 \<rparr> 1770887730 9
     = Inr (True, \<lparr> hlc_W = 4, hlc_Z = 0, hlc_time_unit = WID_TIME_SEC, hlc_node = ''n'',
                    pt = 1770887730, lc = 10, max_lc = 9999 \<rparr>)
   \<and> lex_less (1770887730, 9) (1770887730, 10)
   \<and> hlc_wid_observe 1770887730
      \<lparr> hlc_W = 1, hlc_Z = 0, hlc_time_unit = WID_TIME_SEC, hlc_node = ''n'',
        pt = 1770887730, lc = 3, max_lc = 9 \<rparr> 1770887730 9
     = Inr (True, \<lparr> hlc_W = 1, hlc_Z = 0, hlc_time_unit = WID_TIME_SEC, hlc_node = ''n'',
                    pt = 1770887731, lc = 0, max_lc = 9 \<rparr>)
   \<and> lex_less (1770887730, 9) (1770887731, 0)"
proof -
  let ?g = "\<lparr> hlc_W = 4, hlc_Z = 0, hlc_time_unit = WID_TIME_SEC, hlc_node = ''n'',
        pt = 1770887730, lc = 3, max_lc = 9999 \<rparr>"
  let ?h = "\<lparr> hlc_W = 1, hlc_Z = 0, hlc_time_unit = WID_TIME_SEC, hlc_node = ''n'',
        pt = 1770887730, lc = 3, max_lc = 9 \<rparr>"
  let ?h' = "\<lparr> hlc_W = 1, hlc_Z = 0, hlc_time_unit = WID_TIME_SEC, hlc_node = ''n'',
        pt = 1770887731, lc = 0, max_lc = 9 \<rparr>"
  have roll: "hlc_wid_observe 1770887730 ?h 1770887730 9 = Inr (True, ?h')"
    by (simp add: eval_gen)
  note scenario = hlc_observe_dominates_remote
    [of 1770887730 ?g 1770887730 9 "?g\<lparr> lc := 10 \<rparr>" 1770887730]
  note rollover = hlc_observe_dominates_remote [of 1770887730 ?h 1770887730 9 ?h' 0]
  show ?thesis using scenario rollover roll by simp
qed

text \<open>
  Claim C8. Every HLC generator reached from its initialiser by calls of
  \<^verbatim>\<open>hlc_wid_gen_next\<close> and \<^verbatim>\<open>hlc_wid_observe\<close> has \<open>0 \<le> lc \<le> max_lc\<close> with
  \<open>max_lc = 10 ^ W - 1\<close>; a successful \<^verbatim>\<open>next\<close> and a successful \<^verbatim>\<open>observe\<close>
  each keep this, do not decrease \<open>pt\<close>, and strictly increase \<open>(pt, lc)\<close> in the
  lexicographic order.
\<close>

theorem hlc_gen_invariants:
  assumes "hlc_reachable gen"
  shows "0 \<le> lc gen \<and> lc gen \<le> max_lc gen \<and> max_lc gen = 10 ^ nat (hlc_W gen) - 1
     \<and> (hlc_wid_gen_next now rnd out_len gen = Inr (gen', out) \<longrightarrow>
          0 \<le> lc gen' \<and> lc gen' \<le> max_lc gen' \<and> pt gen \<le> pt gen'
          \<and> lex_less (pt gen, lc gen) (pt gen', lc gen'))
     \<and> (hlc_wid_observe now gen remote_pt remote_lc = Inr (True, gen'') \<longrightarrow>
          0 \<le> lc gen'' \<and> lc gen'' \<le> max_lc gen'' \<and> pt gen \<le> pt gen''
          \<and> lex_less (pt gen, lc gen) (pt gen'', lc gen''))"
proof -
  have inv: "hlc_gen_inv gen" using assms by (rule hlc_reachable_inv)
  have a: "0 \<le> lc gen \<and> lc gen \<le> max_lc gen \<and> max_lc gen = 10 ^ nat (hlc_W gen) - 1"
    using inv by (simp add: hlc_gen_inv_def)
  have b: "0 \<le> lc gen' \<and> lc gen' \<le> max_lc gen' \<and> pt gen \<le> pt gen'
          \<and> lex_less (pt gen, lc gen) (pt gen', lc gen')"
    if "hlc_wid_gen_next now rnd out_len gen = Inr (gen', out)"
    using hlc_wid_gen_step_props [OF hlc_wid_gen_next_step [OF that] inv]
    by (simp add: hlc_gen_inv_def)
  have c: "0 \<le> lc gen'' \<and> lc gen'' \<le> max_lc gen'' \<and> pt gen \<le> pt gen''
          \<and> lex_less (pt gen, lc gen) (pt gen'', lc gen'')"
    if "hlc_wid_observe now gen remote_pt remote_lc = Inr (True, gen'')"
    using hlc_wid_observe_props [OF that inv] by (simp add: hlc_gen_inv_def)
  show ?thesis using a b c by blast
qed

text \<open>
  The witness: a generator with \<open>W = 1\<close> that emitted ten identifiers in one second is
  called again with the clock one second back (the counter rolls over), and observes a
  remote event five seconds ahead.
\<close>

theorem hlc_gen_invariants_witness:
  "hlc_reachable \<lparr> hlc_W = 1, hlc_Z = 0, hlc_time_unit = WID_TIME_SEC, hlc_node = ''n'',
        pt = 1770887730, lc = 9, max_lc = 9 \<rparr>
   \<and> hlc_wid_gen_next 1770887729 (\<lambda>i. 0) 256
        \<lparr> hlc_W = 1, hlc_Z = 0, hlc_time_unit = WID_TIME_SEC, hlc_node = ''n'',
          pt = 1770887730, lc = 9, max_lc = 9 \<rparr>
      = Inr (\<lparr> hlc_W = 1, hlc_Z = 0, hlc_time_unit = WID_TIME_SEC, hlc_node = ''n'',
                pt = 1770887731, lc = 0, max_lc = 9 \<rparr>, ''20260212T091531.0Z-n'')
   \<and> lex_less (1770887730, 9) (1770887731, 0)
   \<and> hlc_wid_observe 1770887729
        \<lparr> hlc_W = 1, hlc_Z = 0, hlc_time_unit = WID_TIME_SEC, hlc_node = ''n'',
          pt = 1770887730, lc = 9, max_lc = 9 \<rparr> 1770887735 4
      = Inr (True, \<lparr> hlc_W = 1, hlc_Z = 0, hlc_time_unit = WID_TIME_SEC, hlc_node = ''n'',
                pt = 1770887735, lc = 5, max_lc = 9 \<rparr>)
   \<and> lex_less (1770887730, 9) (1770887735, 5)"
proof -
  let ?g = "\<lparr> hlc_W = 1, hlc_Z = 0, hlc_time_unit = WID_TIME_SEC, hlc_node = ''n'',
        pt = 1770887730, lc = 9, max_lc = 9 \<rparr>"
  let ?gn = "\<lparr> hlc_W = 1, hlc_Z = 0, hlc_time_unit = WID_TIME_SEC, hlc_node = ''n'',
        pt = 1770887731, lc = 0, max_lc = 9 \<rparr>"
  let ?go = "\<lparr> hlc_W = 1, hlc_Z = 0, hlc_time_unit = WID_TIME_SEC, hlc_node = ''n'',
        pt = 1770887735, lc = 5, max_lc = 9 \<rparr>"
  have i: "hlc_wid_gen_init_ex ''n'' 1 0 WID_TIME_SEC
      = Some \<lparr> hlc_W = 1, hlc_Z = 0, hlc_time_unit = WID_TIME_SEC, hlc_node = ''n'',
        pt = 0, lc = 0, max_lc = 9 \<rparr>"
    by code_simp
  have o: "hlc_wid_observe 1770887730
      \<lparr> hlc_W = 1, hlc_Z = 0, hlc_time_unit = WID_TIME_SEC, hlc_node = ''n'',
        pt = 0, lc = 0, max_lc = 9 \<rparr> 1770887730 8 = Inr (True, ?g)"
    by (simp add: eval_gen)
  have r: "hlc_reachable ?g"
    using hlc_init [OF i] o by (rule hlc_observe)
  have n: "hlc_wid_gen_next 1770887729 (\<lambda>i. 0) 256 ?g = Inr (?gn, ''20260212T091531.0Z-n'')"
    by (simp add: eval_gen)
  have ob: "hlc_wid_observe 1770887729 ?g 1770887735 4 = Inr (True, ?go)"
    by (simp add: eval_gen)
  show ?thesis
    using hlc_gen_invariants [OF r, of 1770887729 "\<lambda>i. 0" 256 ?gn "''20260212T091531.0Z-n''"
        1770887735 4 ?go] r n ob
    by simp
qed

text \<open>
  Claim C9, as the code has it. Initialisation does not fail on \<open>W\<close> or \<open>Z\<close>: a
  \<open>W\<close> below 1 becomes the default 4 and a \<open>W\<close> above 18 becomes 18; a negative
  \<open>Z\<close> becomes the default (6 for WID, 0 for HLC) and a \<open>Z\<close> above 64 becomes 64.
  \<^verbatim>\<open>wid_gen_init_ex\<close> has no failure at all; \<^verbatim>\<open>hlc_wid_gen_init_ex\<close> fails
  exactly for the node names that do not match \<^verbatim>\<open>[A-Za-z0-9_]+\<close>, and keeps the first
  63 characters of a longer name.
\<close>

theorem gen_init_clamps:
  "wid_gen_init_ex W Z unit =
     \<lparr> gen_W = (if W \<le> 0 then 4 else if 18 < W then 18 else W),
       gen_Z = (if Z < 0 then 6 else if 64 < Z then 64 else Z),
       gen_time_unit = unit, last_tick = 0, last_seq = - 1,
       max_seq = 10 ^ nat (if W \<le> 0 then 4 else if 18 < W then 18 else W) - 1 \<rparr>
   \<and> hlc_wid_gen_init_ex nd W Z unit =
     (if node_grammar nd
      then Some \<lparr> hlc_W = (if W \<le> 0 then 4 else if 18 < W then 18 else W),
                  hlc_Z = (if Z < 0 then 0 else if 64 < Z then 64 else Z),
                  hlc_time_unit = unit, hlc_node = take 63 nd, pt = 0, lc = 0,
                  max_lc = 10 ^ nat (if W \<le> 0 then 4 else if 18 < W then 18 else W) - 1 \<rparr>
      else None)"
proof (cases "node_grammar nd")
  case True
  then have "wid_valid_node nd" by (simp add: wid_valid_node_iff)
  from hlc_wid_gen_init_ex_fields [OF this, of W Z unit] True
  show ?thesis by (simp add: wid_gen_init_ex_fields)
next
  case False
  then have "\<not> wid_valid_node nd" by (simp add: wid_valid_node_iff)
  then show ?thesis using False
    by (simp add: wid_gen_init_ex_fields hlc_wid_gen_init_ex_def)
qed

theorem gen_init_clamps_witness:
  "wid_gen_init_ex 19 (- 1) WID_TIME_SEC =
     \<lparr> gen_W = 18, gen_Z = 6, gen_time_unit = WID_TIME_SEC, last_tick = 0, last_seq = - 1,
       max_seq = 999999999999999999 \<rparr>
   \<and> hlc_wid_gen_init_ex ''bad-node'' 4 0 WID_TIME_SEC = None
   \<and> hlc_wid_gen_init_ex ''node01'' 0 65 WID_TIME_MS =
       Some \<lparr> hlc_W = 4, hlc_Z = 64, hlc_time_unit = WID_TIME_MS, hlc_node = ''node01'',
              pt = 0, lc = 0, max_lc = 9999 \<rparr>"
  using gen_init_clamps [of 19 "- 1" WID_TIME_SEC "''bad-node''"]
        gen_init_clamps [of 4 0 WID_TIME_SEC "''bad-node''"]
        gen_init_clamps [of 0 65 WID_TIME_MS "''node01''"]
  by (simp add: node_grammar_def)

text \<open>
  The claim as the specification words it (initialisation fails outside the ranges) is
  false: with \<open>W = 19\<close> and \<open>Z = -1\<close> \<^verbatim>\<open>wid_gen_init_ex\<close> makes a generator that
  emits an 18-digit sequence and 6 padding digits, and \<^verbatim>\<open>hlc_wid_gen_init_ex\<close> with
  \<open>W = 0\<close> and \<open>Z = 65\<close> returns a generator.
\<close>

theorem gen_init_out_of_range_counterexample:
  "wid_gen_next 1770887730 (\<lambda>i. 0x3a) 256 (wid_gen_init_ex 19 (- 1) WID_TIME_SEC)
     = Inr (\<lparr> gen_W = 18, gen_Z = 6, gen_time_unit = WID_TIME_SEC, last_tick = 1770887730,
               last_seq = 0, max_seq = 999999999999999999 \<rparr>,
            ''20260212T091530.000000000000000000Z-aaaaaa'')
   \<and> hlc_wid_gen_init_ex ''n'' 0 65 WID_TIME_SEC
     = Some \<lparr> hlc_W = 4, hlc_Z = 64, hlc_time_unit = WID_TIME_SEC, hlc_node = ''n'',
              pt = 0, lc = 0, max_lc = 9999 \<rparr>"
  by code_simp

section \<open>Claims about validation and parsing\<close>

text \<open>
  Claim C1, as the code has it. If \<^verbatim>\<open>wid_validate_ex\<close> accepts \<open>s\<close>, then
  \<^verbatim>\<open>wid_parse_ex\<close> succeeds on \<open>s\<close> and re-rendering the parsed fields with the
  same \<open>W\<close> and unit gives \<open>s\<close> back, character for character. If
  \<^verbatim>\<open>hlc_wid_validate_ex\<close> accepts \<open>s\<close> and the node segment of \<open>s\<close> has at most
  63 characters, then \<^verbatim>\<open>hlc_wid_parse_ex\<close> succeeds and re-rendering gives \<open>s\<close>
  back. (Acceptance already forces \<open>W\<close> into 1 .. 18 and \<open>Z\<close> into 0 .. 64.)
\<close>

theorem parse_render_roundtrip:
  "(wid_validate_ex s W Z unit
      \<longrightarrow> (\<exists>p. wid_parse_ex s W Z unit = Some p \<and> render_wid W unit p = s))
   \<and> (hlc_wid_validate_ex s W Z unit \<and> length (hlc_node_segment s W unit) < 64
      \<longrightarrow> (\<exists>p. hlc_wid_parse_ex s W Z unit = Some p \<and> render_hlc_wid W unit p = s))"
  using wid_parse_ex_roundtrip [of s W Z unit] hlc_wid_parse_ex_roundtrip [of s W Z unit]
  by blast

text \<open>
  The witness: the specification's first scenario and an HLC-WID in milliseconds.
\<close>

theorem parse_render_roundtrip_witness:
  "wid_validate_ex ''20260212T091530.0042Z-a3f91c'' 4 6 WID_TIME_SEC
   \<and> (\<exists>p. wid_parse_ex ''20260212T091530.0042Z-a3f91c'' 4 6 WID_TIME_SEC = Some p
          \<and> render_wid 4 WID_TIME_SEC p = ''20260212T091530.0042Z-a3f91c'')
   \<and> hlc_wid_validate_ex ''20260212T091530123.0042Z-node01-a3f91c'' 4 6 WID_TIME_MS
   \<and> length (hlc_node_segment ''20260212T091530123.0042Z-node01-a3f91c'' 4 WID_TIME_MS) < 64
   \<and> (\<exists>p. hlc_wid_parse_ex ''20260212T091530123.0042Z-node01-a3f91c'' 4 6 WID_TIME_MS = Some p
          \<and> render_hlc_wid 4 WID_TIME_MS p = ''20260212T091530123.0042Z-node01-a3f91c'')"
proof -
  have v: "wid_validate_ex ''20260212T091530.0042Z-a3f91c'' 4 6 WID_TIME_SEC" by code_simp
  have h: "hlc_wid_validate_ex ''20260212T091530123.0042Z-node01-a3f91c'' 4 6 WID_TIME_MS"
    by code_simp
  have l: "length (hlc_node_segment ''20260212T091530123.0042Z-node01-a3f91c'' 4 WID_TIME_MS) < 64"
    by code_simp
  from parse_render_roundtrip [of "''20260212T091530.0042Z-a3f91c''" 4 6 WID_TIME_SEC] v
  have a: "\<exists>p. wid_parse_ex ''20260212T091530.0042Z-a3f91c'' 4 6 WID_TIME_SEC = Some p
          \<and> render_wid 4 WID_TIME_SEC p = ''20260212T091530.0042Z-a3f91c''" by blast
  from parse_render_roundtrip [of "''20260212T091530123.0042Z-node01-a3f91c''" 4 6 WID_TIME_MS] h l
  have b: "\<exists>p. hlc_wid_parse_ex ''20260212T091530123.0042Z-node01-a3f91c'' 4 6 WID_TIME_MS = Some p
          \<and> render_hlc_wid 4 WID_TIME_MS p = ''20260212T091530123.0042Z-node01-a3f91c''" by blast
  from v a h l b show ?thesis by (intro conjI)
qed

text \<open>
  The claim without the bound on the node fails: the validator accepts an HLC-WID whose
  node has 64 characters, and the parser, whose \<^verbatim>\<open>node\<close> array has 64 bytes,
  refuses it.
\<close>

theorem parse_render_roundtrip_counterexample:
  "hlc_wid_validate_ex
     (''20260212T091530123.0042Z-'' @ replicate 64 CHR ''n'' @ ''-a3f91c'') 4 6 WID_TIME_MS
   \<and> hlc_wid_parse_ex
     (''20260212T091530123.0042Z-'' @ replicate 64 CHR ''n'' @ ''-a3f91c'') 4 6 WID_TIME_MS = None"
  by code_simp

text \<open>
  Claim C2 fails on the code for the padding widths 34 .. 64, which initialisation
  accepts: \<^verbatim>\<open>wid_random_hex\<close> reads \<open>Z\<close> bytes into its 33-byte array, so both
  generators write past the end of a buffer instead of emitting an identifier. For the
  other widths the claim holds: \<open>wid_gen_next_emits_valid\<close> and
  \<open>hlc_wid_gen_next_emits_valid\<close> above show that every identifier a call emits is
  accepted by the validator for the generator's \<open>W\<close>, \<open>Z\<close> and unit.
\<close>

theorem wid_random_hex_overflow:
  "wid_gen_next 1770887730 rnd 256 (wid_gen_init_ex 4 34 WID_TIME_SEC) = Inl BufferOverflow
   \<and> hlc_wid_gen_next 1770887730 rnd 256
        \<lparr> hlc_W = 4, hlc_Z = 34, hlc_time_unit = WID_TIME_SEC, hlc_node = ''node01'',
          pt = 0, lc = 0, max_lc = 9999 \<rparr> = Inl BufferOverflow"
  by (simp add: eval_gen)

text \<open>
  Claim C3, as the code has it. \<^verbatim>\<open>wid_parse_ex\<close> succeeds exactly when
  \<^verbatim>\<open>wid_validate_ex\<close> accepts; \<^verbatim>\<open>hlc_wid_parse_ex\<close> succeeds exactly when
  \<^verbatim>\<open>hlc_wid_validate_ex\<close> accepts and the node segment has at most 63 characters.
\<close>

theorem parse_iff_validate:
  "(wid_parse_ex s W Z unit \<noteq> None \<longleftrightarrow> wid_validate_ex s W Z unit)
   \<and> (hlc_wid_parse_ex s W Z unit \<noteq> None
        \<longleftrightarrow> hlc_wid_validate_ex s W Z unit \<and> length (hlc_node_segment s W unit) < 64)"
  using wid_parse_ex_iff hlc_wid_parse_ex_iff by blast

theorem parse_iff_validate_witness:
  "wid_validate_ex ''20260212T091530.0042Z-a3f91c'' 4 6 WID_TIME_SEC
   \<and> wid_parse_ex ''20260212T091530.0042Z-a3f91c'' 4 6 WID_TIME_SEC \<noteq> None
   \<and> \<not> hlc_wid_validate_ex ''20260212T091530.0000Z-node-01'' 4 0 WID_TIME_SEC
   \<and> hlc_wid_parse_ex ''20260212T091530.0000Z-node-01'' 4 0 WID_TIME_SEC = None"
proof -
  have v: "wid_validate_ex ''20260212T091530.0042Z-a3f91c'' 4 6 WID_TIME_SEC" by code_simp
  have n: "\<not> hlc_wid_validate_ex ''20260212T091530.0000Z-node-01'' 4 0 WID_TIME_SEC"
    by code_simp
  from parse_iff_validate [of "''20260212T091530.0042Z-a3f91c''" 4 6 WID_TIME_SEC] v
  have a: "wid_parse_ex ''20260212T091530.0042Z-a3f91c'' 4 6 WID_TIME_SEC \<noteq> None" by simp
  from parse_iff_validate [of "''20260212T091530.0000Z-node-01''" 4 0 WID_TIME_SEC] n
  have b: "hlc_wid_parse_ex ''20260212T091530.0000Z-node-01'' 4 0 WID_TIME_SEC = None" by simp
  from v a n b show ?thesis by (intro conjI)
qed

text \<open>
  The claim without the bound fails on a node of 64 characters.
\<close>

theorem parse_iff_validate_counterexample:
  "hlc_wid_validate_ex
     ''20260212T091530.0000Z-aaaaaaaaaaaaaaaaaaaaaaaaaaaaaaaaaaaaaaaaaaaaaaaaaaaaaaaaaaaaaaaaaaaaaaaa''
     4 0 WID_TIME_SEC
   \<and> hlc_wid_parse_ex
     ''20260212T091530.0000Z-aaaaaaaaaaaaaaaaaaaaaaaaaaaaaaaaaaaaaaaaaaaaaaaaaaaaaaaaaaaaaaaaaaaaaaaa''
     4 0 WID_TIME_SEC = None"
  by code_simp

text \<open>
  Claim C4, as the code has it. If \<^verbatim>\<open>wid_validate_ex\<close> accepts \<open>s\<close>, the literal
  \<^verbatim>\<open>Z\<close> stands after the \<open>W\<close> digits and what follows it is either nothing, for
  any \<open>Z\<close>, or, with \<open>Z > 0\<close>, a dash and exactly \<open>Z\<close> lowercase hex digits. With
  \<open>Z = 0\<close> every non-empty suffix after the \<^verbatim>\<open>Z\<close> is refused.
\<close>

theorem wid_validate_padding_shape:
  "(wid_validate_ex s W Z unit \<longrightarrow>
      cstr_at s (nat (wid_timestamp_len unit + 1 + W)) = CHR ''Z''
      \<and> (drop (nat (wid_timestamp_len unit + 1 + W + 1)) s = []
         \<or> (0 < Z \<and> (\<exists>pad. drop (nat (wid_timestamp_len unit + 1 + W + 1)) s = CHR ''-'' # pad
                          \<and> int (length pad) = Z \<and> list_all wid_is_lower_hex pad))))
   \<and> (Z = 0 \<and> drop (nat (wid_timestamp_len unit + 1 + W + 1)) s \<noteq> []
        \<longrightarrow> \<not> wid_validate_ex s W Z unit)"
proof (intro conjI impI)
  assume v: "wid_validate_ex s W Z unit"
  show "cstr_at s (nat (wid_timestamp_len unit + 1 + W)) = CHR ''Z''"
    using wid_validate_ex_D(7) [OF v] .
  show "drop (nat (wid_timestamp_len unit + 1 + W + 1)) s = []
         \<or> (0 < Z \<and> (\<exists>pad. drop (nat (wid_timestamp_len unit + 1 + W + 1)) s = CHR ''-'' # pad
                          \<and> int (length pad) = Z \<and> list_all wid_is_lower_hex pad))"
    using wid_valid_suffix_D [OF wid_validate_ex_D(9) [OF v]] .
next
  assume z: "Z = 0 \<and> drop (nat (wid_timestamp_len unit + 1 + W + 1)) s \<noteq> []"
  show "\<not> wid_validate_ex s W Z unit"
  proof
    assume v: "wid_validate_ex s W Z unit"
    from wid_valid_suffix_D [OF wid_validate_ex_D(9) [OF v]] z show False by auto
  qed
qed

theorem wid_validate_padding_shape_witness:
  "wid_validate_ex ''20260212T091530.0042Z-a3f91c'' 4 6 WID_TIME_SEC
   \<and> (\<exists>pad. drop 21 ''20260212T091530.0042Z-a3f91c'' = CHR ''-'' # pad
          \<and> int (length pad) = 6 \<and> list_all wid_is_lower_hex pad)
   \<and> \<not> wid_validate_ex ''20260212T091530.0000Z-node01'' 4 0 WID_TIME_SEC"
proof -
  have v: "wid_validate_ex ''20260212T091530.0042Z-a3f91c'' 4 6 WID_TIME_SEC" by code_simp
  from wid_validate_padding_shape [of "''20260212T091530.0042Z-a3f91c''" 4 6 WID_TIME_SEC] v
  have a: "\<exists>pad. drop 21 ''20260212T091530.0042Z-a3f91c'' = CHR ''-'' # pad
          \<and> int (length pad) = 6 \<and> list_all wid_is_lower_hex pad"
    by (simp add: wid_timestamp_len_def)
  from wid_validate_padding_shape [of "''20260212T091530.0000Z-node01''" 4 0 WID_TIME_SEC]
  have b: "\<not> wid_validate_ex ''20260212T091530.0000Z-node01'' 4 0 WID_TIME_SEC"
    by (simp add: wid_timestamp_len_def)
  from v a b show ?thesis by (intro conjI)
qed

text \<open>
  The claim as worded (with \<open>Z > 0\<close> an accepted string ends with a dash and \<open>Z\<close>
  hex digits) fails: \<^verbatim>\<open>wid_valid_suffix\<close> accepts the empty suffix first, so an
  identifier without padding is accepted with \<open>Z = 6\<close>.
\<close>

theorem wid_validate_padding_shape_counterexample:
  "wid_validate_ex ''20260212T091530.0000Z'' 4 6 WID_TIME_SEC
   \<and> \<not> (\<exists>p pad. ''20260212T091530.0000Z'' = p @ CHR ''-'' # pad \<and> length pad = 6
                   \<and> list_all wid_is_lower_hex pad)"
proof
  show "wid_validate_ex ''20260212T091530.0000Z'' 4 6 WID_TIME_SEC" by code_simp
  have "CHR ''-'' \<notin> set ''20260212T091530.0000Z''" by simp
  then show "\<not> (\<exists>p pad. ''20260212T091530.0000Z'' = p @ CHR ''-'' # pad \<and> length pad = 6
                   \<and> list_all wid_is_lower_hex pad)"
    by (metis in_set_conv_decomp)
qed

text \<open>
  Claim C10. Whatever \<open>W\<close>, \<open>Z\<close> and the unit, \<^verbatim>\<open>hlc_wid_parse_ex\<close> fails on
  every string whose node segment has 64 characters or more, while
  \<^verbatim>\<open>hlc_wid_validate_ex\<close> has no upper bound on the node: it accepts a node of
  \<open>n\<close> letters for every \<open>n \<ge> 1\<close>.
\<close>

theorem hlc_parse_rejects_long_node:
  "(64 \<le> length (hlc_node_segment s W unit) \<longrightarrow> hlc_wid_parse_ex s W Z unit = None)
   \<and> (1 \<le> n \<longrightarrow>
        hlc_wid_validate_ex (''20260212T091530.0000Z-'' @ replicate n CHR ''a'') 4 0 WID_TIME_SEC
        \<and> length (hlc_node_segment (''20260212T091530.0000Z-'' @ replicate n CHR ''a'')
                     4 WID_TIME_SEC) = n)"
  using hlc_wid_parse_ex_long_node [of s W unit Z] long_node_validates [of n] by simp

theorem hlc_parse_rejects_long_node_witness:
  "hlc_wid_validate_ex (''20260212T091530.0000Z-'' @ replicate 64 CHR ''a'') 4 0 WID_TIME_SEC
   \<and> length (hlc_node_segment (''20260212T091530.0000Z-'' @ replicate 64 CHR ''a'')
               4 WID_TIME_SEC) = 64
   \<and> hlc_wid_parse_ex (''20260212T091530.0000Z-'' @ replicate 64 CHR ''a'') 4 0 WID_TIME_SEC = None"
proof -
  let ?s = "''20260212T091530.0000Z-'' @ replicate 64 CHR ''a''"
  from hlc_parse_rejects_long_node [of ?s 4 WID_TIME_SEC 0 64]
  have long: "64 \<le> length (hlc_node_segment ?s 4 WID_TIME_SEC)
               \<longrightarrow> hlc_wid_parse_ex ?s 4 0 WID_TIME_SEC = None"
    and ok: "hlc_wid_validate_ex ?s 4 0 WID_TIME_SEC"
    and len: "length (hlc_node_segment ?s 4 WID_TIME_SEC) = 64"
    by simp_all
  from long len have "hlc_wid_parse_ex ?s 4 0 WID_TIME_SEC = None" by simp
  with ok len show ?thesis by (intro conjI)
qed

end
